theory Spec2Isabelle
  imports Complex_Main "HOL-Library.Log_Nat"
begin

section \<open>JavaScript values used by the subtitle pipeline\<close>

subsection \<open>Numbers\<close>

text \<open>
  A JavaScript number is an IEEE-754 binary64 value. The model keeps \<open>NaN\<close> apart and
  represents every finite number by the rational it denotes. The arithmetic operators
  round their exact result to 53 significant bits, ties to even (\<open>fl\<close>), as the
  hardware does. The exponent range is not bounded: the model agrees with binary64
  wherever no overflow to \<open>Infinity\<close> and no subnormal result occurs. The sign of
  zero is not tracked (\<open>String(-0)\<close> is \<open>"0"\<close> and \<open>-0 || 0\<close> is \<open>0\<close>, so no
  function below can tell the two zeros apart).
\<close>

datatype jsnum = NaN | Fin rat

definition rne :: "rat \<Rightarrow> int" where
  \<comment> \<open>round to the nearest integer, ties to the even one\<close>
  "rne x = (let n = \<lfloor>x\<rfloor>; d = x - of_int n
            in if d < 1/2 then n else if 1/2 < d then n + 1
               else if even n then n else n + 1)"

definition ilog2 :: "rat \<Rightarrow> int" where
  \<comment> \<open>for \<open>0 < x\<close>: the exponent \<open>e\<close> with \<open>2^e \<le> x < 2^(e+1)\<close>\<close>
  "ilog2 x = (case quotient_of x of (p, q) \<Rightarrow>
       let e = bitlen p - bitlen q in if 2 powi e \<le> x then e else e - 1)"

definition fl :: "rat \<Rightarrow> rat" where
  \<comment> \<open>the binary64 value nearest to \<open>x\<close>\<close>
  "fl x = (if x = 0 then 0
           else let q = 2 powi (ilog2 \<bar>x\<bar> - 52) in of_int (rne (x / q)) * q)"

definition lit :: "rat \<Rightarrow> jsnum" where
  \<comment> \<open>the number a decimal literal such as \<open>3661.234\<close> denotes\<close>
  "lit r = Fin (fl r)"

definition orNum :: "jsnum \<Rightarrow> rat \<Rightarrow> rat" where
  \<comment> \<open>\<open>x || c\<close> and \<open>Number(x) || c\<close> on a number: \<open>NaN\<close> and \<open>0\<close> are falsy\<close>
  "orNum x c = (case x of NaN \<Rightarrow> c | Fin r \<Rightarrow> if r = 0 then c else r)"

definition orElse :: "jsnum \<Rightarrow> jsnum \<Rightarrow> jsnum" where
  \<comment> \<open>\<open>a || b\<close> on numbers\<close>
  "orElse a b = (case a of NaN \<Rightarrow> b | Fin r \<Rightarrow> if r = 0 then b else a)"

definition jsDiv :: "jsnum \<Rightarrow> rat \<Rightarrow> jsnum" where
  \<comment> \<open>\<open>a / d\<close> for a non-zero constant \<open>d\<close>\<close>
  "jsDiv a d = (case a of NaN \<Rightarrow> NaN | Fin r \<Rightarrow> Fin (fl (r / d)))"

definition jsSub :: "jsnum \<Rightarrow> jsnum \<Rightarrow> jsnum" where
  "jsSub a b = (case (a, b) of (Fin r, Fin s) \<Rightarrow> Fin (fl (r - s)) | _ \<Rightarrow> NaN)"

definition jsGt :: "jsnum \<Rightarrow> rat \<Rightarrow> bool" where
  \<comment> \<open>\<open>a > c\<close>: false when \<open>a\<close> is \<open>NaN\<close>\<close>
  "jsGt a c = (case a of NaN \<Rightarrow> False | Fin r \<Rightarrow> c < r)"

definition jsRem :: "int \<Rightarrow> int \<Rightarrow> int" where
  \<comment> \<open>\<open>a % b\<close> on integers, \<open>b \<noteq> 0\<close>: the remainder has the sign of the dividend\<close>
  "jsRem a b = sgn a * (\<bar>a\<bar> mod \<bar>b\<bar>)"

definition floorDiv :: "int \<Rightarrow> int \<Rightarrow> int" where
  \<comment> \<open>\<open>Math.floor(a / b)\<close> on integers: the quotient is rounded to a double first\<close>
  "floorDiv a b = \<lfloor>fl (of_int a / of_int b)\<rfloor>"

definition mathRound :: "rat \<Rightarrow> int" where
  \<comment> \<open>\<open>Math.round\<close>: the nearest integer, a tie goes up\<close>
  "mathRound x = \<lfloor>x + 1/2\<rfloor>"

subsection \<open>Strings\<close>

text \<open>
  A JavaScript string is a sequence of UTF-16 code units, modelled as a list of
  naturals; \<open>str\<close> embeds an ASCII literal.
\<close>

type_synonym jsstring = "nat list"

abbreviation str :: "string \<Rightarrow> jsstring" where
  "str s \<equiv> map of_char s"

fun decimal :: "nat \<Rightarrow> jsstring" where
  "decimal n = (if n < 10 then [48 + n] else decimal (n div 10) @ [48 + n mod 10])"

definition jsString :: "int \<Rightarrow> jsstring" where
  \<comment> \<open>\<open>String(n)\<close> for an integer \<open>n\<close> of magnitude below \<open>2^53\<close>, where the decimal
      digits JavaScript prints are those of the integer itself\<close>
  "jsString i = (if i < 0 then 45 # decimal (nat (- i)) else decimal (nat i))"

definition padStart :: "nat \<Rightarrow> jsstring \<Rightarrow> jsstring" where
  \<comment> \<open>\<open>s.padStart(k, "0")\<close>\<close>
  "padStart k s = replicate (k - length s) 48 @ s"

section \<open>TimeCodec\<close>

definition toVttTime :: "jsnum \<Rightarrow> jsstring" where
  \<comment> \<open>transcribe.js, the encoder of \<open>buildVtt\<close>\<close>
  "toVttTime seconds =
    (let sec = orNum seconds 0;
         ms = \<lfloor>fl (sec * 1000)\<rfloor>;
         hours = floorDiv ms 3600000;
         minutes = floorDiv (jsRem ms 3600000) 60000;
         secs = floorDiv (jsRem ms 60000) 1000;
         milliseconds = jsRem ms 1000
     in padStart 2 (jsString hours) @ str '':'' @ padStart 2 (jsString minutes) @ str '':''
        @ padStart 2 (jsString secs) @ str ''.'' @ padStart 3 (jsString milliseconds))"

definition secToVttTimestamp :: "jsnum \<Rightarrow> jsstring" where
  \<comment> \<open>index.js\<close>
  "secToVttTimestamp t =
    (let totalMs = mathRound (fl (orNum t 0 * 1000));
         ms = jsRem totalMs 1000;
         s = floorDiv totalMs 1000;
         secs = jsRem s 60;
         s' = floorDiv s 60;
         mins = jsRem s' 60;
         hrs = floorDiv s' 60
     in padStart 2 (jsString hrs) @ str '':'' @ padStart 2 (jsString mins) @ str '':''
        @ padStart 2 (jsString secs) @ str ''.'' @ padStart 3 (jsString ms))"

definition toVttTime' :: "jsnum \<Rightarrow> jsstring" where
  \<comment> \<open>index.js, the local \<open>toVttTime\<close> of \<open>buildVttFromSegments\<close>\<close>
  "toVttTime' sec =
    (let totalMs = mathRound (fl (orNum sec 0 * 1000));
         ms = jsRem totalMs 1000;
         s = floorDiv totalMs 1000;
         secs = jsRem s 60;
         s' = floorDiv s 60;
         mins = jsRem s' 60;
         hrs = floorDiv s' 60
     in padStart 2 (jsString hrs) @ str '':'' @ padStart 2 (jsString mins) @ str '':''
        @ padStart 2 (jsString secs) @ str ''.'' @ padStart 3 (jsString ms))"

section \<open>CueBuilder\<close>

text \<open>
  A word of the provider's transcript. A field that is absent (\<open>undefined\<close>) is
  \<open>None\<close> for the strings and \<open>NaN\<close> for the times: \<open>undefined / 1000\<close> is
  \<open>NaN\<close>, and \<open>undefined || x\<close> is \<open>x\<close> as \<open>NaN || x\<close> is.
\<close>

record word_token =
  wtext :: "jsstring option"
  wword :: "jsstring option"
  wstart :: jsnum
  wend :: jsnum
  wfrom :: jsnum
  wto :: jsnum

record segment =
  seg_start :: jsnum
  seg_end :: jsnum
  seg_text :: jsstring

text \<open>
  The segment under construction. Its \<open>text\<close> can be \<open>undefined\<close> after a cue was
  closed on a word without text. Its \<open>end\<close> starts as \<open>null\<close> in the source and is
  assigned by the loop body before it is read or copied; the model starts it as \<open>NaN\<close>.
\<close>

record open_segment =
  o_start :: jsnum
  o_end :: jsnum
  o_text :: "jsstring option"

record transcript =
  t_words :: "word_token list option"
  t_text :: "jsstring option"
  t_audio_duration :: jsnum

datatype error = TypeError

definition word :: "string \<Rightarrow> rat \<Rightarrow> rat \<Rightarrow> word_token" where
  \<comment> \<open>a word as the provider sends it: \<open>{ text, start, end }\<close>, times in milliseconds\<close>
  "word t s e = \<lparr>wtext = Some (str t), wword = None, wstart = Fin s, wend = Fin e,
                 wfrom = NaN, wto = NaN\<rparr>"

definition textOrWord :: "word_token \<Rightarrow> jsstring option" where
  \<comment> \<open>\<open>w.text || w.word\<close>\<close>
  "textOrWord w = (case wtext w of
      Some t \<Rightarrow> if t \<noteq> [] then Some t else wword w
    | None \<Rightarrow> wword w)"

definition toStr :: "jsstring option \<Rightarrow> jsstring" where
  \<comment> \<open>the string that \<open>+=\<close> appends for a string or \<open>undefined\<close>\<close>
  "toStr v = (case v of Some t \<Rightarrow> t | None \<Rightarrow> str ''undefined'')"

definition truthy :: "jsstring option \<Rightarrow> bool" where
  "truthy v = (case v of Some t \<Rightarrow> t \<noteq> [] | None \<Rightarrow> False)"

definition appendWord :: "jsstring \<Rightarrow> jsstring \<Rightarrow> jsstring" where
  \<comment> \<open>\<open>if (text.length > 0) text += " "; text += t\<close>\<close>
  "appendWord text t = (if length text > 0 then text @ str '' '' else text) @ t"

fun wordsLoop ::
  "segment list \<Rightarrow> open_segment \<Rightarrow> jsnum \<Rightarrow> word_token list
     \<Rightarrow> error + (segment list \<times> open_segment)" where
  "wordsLoop segments segment blockTime [] = Inr (segments, segment)"
| "wordsLoop segments segment blockTime (w # ws) =
    (case o_text segment of
       None \<Rightarrow> Inl TypeError
     | Some t \<Rightarrow>
        (let text = appendWord t (toStr (textOrWord w));
             end = jsDiv (wend w) 1000
         in if jsGt (jsSub end blockTime) 5
            then wordsLoop
                   (segments @ [\<lparr>seg_start = o_start segment, seg_end = end, seg_text = text\<rparr>])
                   \<lparr>o_start = jsDiv (wstart w) 1000, o_end = jsDiv (wend w) 1000,
                    o_text = textOrWord w\<rparr>
                   (jsDiv (wstart w) 1000) ws
            else wordsLoop segments
                   \<lparr>o_start = o_start segment, o_end = end, o_text = Some text\<rparr>
                   blockTime ws))"

definition buildSegments :: "transcript \<Rightarrow> error + segment list" where
  \<comment> \<open>transcribe.js, the "Build segments" block of \<open>transcribeWithAssemblyAI\<close> and of
      \<open>transcribeWithAssemblyAIAudioUrl\<close>\<close>
  "buildSegments result =
    (case t_words result of
       Some (w0 # ws) \<Rightarrow>
         (case wordsLoop [] \<lparr>o_start = jsDiv (wstart w0) 1000, o_end = NaN, o_text = Some []\<rparr>
                 (jsDiv (wstart w0) 1000) (w0 # ws) of
            Inl e \<Rightarrow> Inl e
          | Inr (segments, segment) \<Rightarrow>
              (case o_text segment of
                 Some t \<Rightarrow>
                   if t \<noteq> []
                   then Inr (segments @ [\<lparr>seg_start = o_start segment,
                                           seg_end = o_end segment, seg_text = t\<rparr>])
                   else Inr segments
               | None \<Rightarrow> Inr segments))
     | _ \<Rightarrow>
         (case t_text result of
            Some t \<Rightarrow>
              if t \<noteq> []
              then Inr [\<lparr>seg_start = Fin 0,
                         seg_end = Fin (max (orNum (t_audio_duration result) 0) 1),
                         seg_text = t\<rparr>]
              else Inr []
          | None \<Rightarrow> Inr []))"

fun builtLoop ::
  "segment list \<Rightarrow> segment \<Rightarrow> jsnum \<Rightarrow> word_token list \<Rightarrow> segment list \<times> segment" where
  "builtLoop built seg blockTime [] = (built, seg)"
| "builtLoop built seg blockTime (w # ws) =
    (let text = appendWord (seg_text seg) (case textOrWord w of Some t \<Rightarrow> t | None \<Rightarrow> []);
         end = jsDiv (orElse (wend w) (wto w)) 1000
     in if jsGt (jsSub end blockTime) 5
        then builtLoop
               (built @ [\<lparr>seg_start = seg_start seg, seg_end = end, seg_text = text\<rparr>])
               \<lparr>seg_start = jsDiv (orElse (wstart w) (wfrom w)) 1000,
                seg_end = jsDiv (orElse (wend w) (wto w)) 1000,
                seg_text = (case textOrWord w of Some t \<Rightarrow> t | None \<Rightarrow> [])\<rparr>
               (jsDiv (orElse (wstart w) (wfrom w)) 1000) ws
        else builtLoop built \<lparr>seg_start = seg_start seg, seg_end = end, seg_text = text\<rparr>
               blockTime ws)"

definition buildFromTranscript :: "transcript \<Rightarrow> segment list" where
  \<comment> \<open>index.js, the \<open>built\<close> list of the \<open>/translate-subtitles\<close> route\<close>
  "buildFromTranscript transcript =
    (case t_words transcript of
       Some (w0 # ws) \<Rightarrow>
         (case builtLoop [] \<lparr>seg_start = jsDiv (wstart w0) 1000, seg_end = NaN, seg_text = []\<rparr>
                 (jsDiv (wstart w0) 1000) (w0 # ws) of
            (built, seg) \<Rightarrow> if seg_text seg \<noteq> [] then built @ [seg] else built)
     | _ \<Rightarrow>
         (case t_text transcript of
            Some t \<Rightarrow>
              if t \<noteq> []
              then [\<lparr>seg_start = Fin 0,
                     seg_end = Fin (max (orNum (t_audio_duration transcript) 1) 1),
                     seg_text = t\<rparr>]
              else []
          | None \<Rightarrow> []))"

section \<open>SubtitleSerializer\<close>

definition buildVtt :: "segment list \<Rightarrow> jsstring \<Rightarrow> jsstring" where
  \<comment> \<open>transcribe.js\<close>
  "buildVtt segments fullText =
    (if segments = []
     then (if fullText \<noteq> []
           then str ''WEBVTT\<newline>\<newline>'' @ str ''1\<newline>00:00:00.000 --> 01:00:00.000\<newline>''
                  @ fullText @ str ''\<newline>\<newline>''
           else str ''WEBVTT\<newline>\<newline>'')
     else str ''WEBVTT\<newline>\<newline>'' @
          concat (map (\<lambda>(idx, seg).
              jsString (int idx + 1) @ str ''\<newline>'' @ toVttTime (seg_start seg) @ str '' --> ''
                @ toVttTime (seg_end seg) @ str ''\<newline>'' @ seg_text seg @ str ''\<newline>\<newline>'')
            (enumerate 0 segments)))"

fun replaceCRLF :: "jsstring \<Rightarrow> jsstring" where
  \<comment> \<open>\<open>s.replace(/\<bslash>r\<bslash>n/g, "\<bslash>n")\<close>\<close>
  "replaceCRLF (c # d # cs) =
     (if c = 13 \<and> d = 10 then 10 # replaceCRLF cs else c # replaceCRLF (d # cs))"
| "replaceCRLF cs = cs"

fun jsJoin :: "jsstring \<Rightarrow> jsstring list \<Rightarrow> jsstring" where
  \<comment> \<open>\<open>lines.join(sep)\<close>\<close>
  "jsJoin sep [] = []"
| "jsJoin sep [l] = l"
| "jsJoin sep (l # ls) = l @ sep @ jsJoin sep ls"

definition buildVttFromSegments :: "segment list \<Rightarrow> jsstring" where
  \<comment> \<open>index.js\<close>
  "buildVttFromSegments segments =
    jsJoin (str ''\<newline>'') ([str ''WEBVTT'', []] @
      concat (map (\<lambda>(i, s).
          [jsString (int i + 1),
           toVttTime' (seg_start s) @ str '' --> '' @ toVttTime' (seg_end s),
           replaceCRLF (seg_text s),
           []])
        (enumerate 0 segments)))"

section \<open>TranslationEngine\<close>

subsection \<open>Language codes\<close>

definition isSpace :: "nat \<Rightarrow> bool" where
  \<comment> \<open>the code units that \<open>trim\<close> strips and \<open>\<bslash>s\<close> matches\<close>
  "isSpace c = (c \<in> set [9, 10, 11, 12, 13, 32, 160, 5760, 8232, 8233, 8239, 8287, 12288, 65279]
                \<or> (8192 \<le> c \<and> c \<le> 8202))"

definition trim :: "jsstring \<Rightarrow> jsstring" where
  "trim s = rev (dropWhile isSpace (rev (dropWhile isSpace s)))"

definition isLetter :: "nat \<Rightarrow> bool" where
  \<comment> \<open>\<open>[A-Za-z]\<close>\<close>
  "isLetter c = ((65 \<le> c \<and> c \<le> 90) \<or> (97 \<le> c \<and> c \<le> 122))"

definition asciiLower :: "nat \<Rightarrow> nat" where
  "asciiLower c = (if 65 \<le> c \<and> c \<le> 90 then c + 32 else c)"

definition asciiUpper :: "nat \<Rightarrow> nat" where
  "asciiUpper c = (if 97 \<le> c \<and> c \<le> 122 then c - 32 else c)"

text \<open>
  \<open>toLowerCase\<close> is exact on ASCII and on the two code units whose lower case holds an
  ASCII letter (U+212A, the Kelvin sign, gives \<open>k\<close>; U+0130 gives \<open>i\<close> followed by
  U+0307). Every other code unit is kept: JavaScript maps it to code units outside ASCII
  again, and the strings below are only compared with ASCII strings. \<open>toUpperCase\<close> is
  applied to ASCII letters only.
\<close>

definition toLowerCase :: "jsstring \<Rightarrow> jsstring" where
  "toLowerCase s = concat (map (\<lambda>c. if c = 8490 then [107]
                                      else if c = 304 then [105, 775]
                                      else [asciiLower c]) s)"

definition toUpperCase :: "jsstring \<Rightarrow> jsstring" where
  "toUpperCase s = map asciiUpper s"

definition testAuto :: "jsstring \<Rightarrow> bool" where
  \<comment> \<open>\<open>/^auto$/i\<close>\<close>
  "testAuto s = (map asciiLower s = str ''auto'')"

definition testCode :: "jsstring \<Rightarrow> bool" where
  \<comment> \<open>\<open>/^[A-Za-z]{2}(-[A-Za-z]{2,4})?$/\<close>\<close>
  "testCode s = (list_all isLetter (take 2 s) \<and>
     (length s = 2 \<or>
      (5 \<le> length s \<and> length s \<le> 7 \<and> s ! 2 = 45 \<and> list_all isLetter (drop 3 s))))"

fun splitDash :: "jsstring \<Rightarrow> jsstring list" where
  \<comment> \<open>\<open>s.split("-")\<close>\<close>
  "splitDash [] = [[]]"
| "splitDash (c # cs) =
     (if c = 45 then [] # splitDash cs
      else (case splitDash cs of p # ps \<Rightarrow> (c # p) # ps | [] \<Rightarrow> [[c]]))"

function replaceSpaces :: "jsstring \<Rightarrow> jsstring" where
  \<comment> \<open>\<open>s.replace(/\<bslash>s+/g, "_")\<close>\<close>
  "replaceSpaces [] = []"
| "replaceSpaces (c # cs) =
     (if isSpace c then 95 # replaceSpaces (dropWhile isSpace cs) else c # replaceSpaces cs)"
  by pat_completeness auto
termination
  by (relation "measure length") (auto simp: length_dropWhile_le less_Suc_eq_le)

definition removeParens :: "jsstring \<Rightarrow> jsstring" where
  \<comment> \<open>\<open>s.replace(/[()]/g, "")\<close>\<close>
  "removeParens s = filter (\<lambda>c. c \<noteq> 40 \<and> c \<noteq> 41) s"

definition LANG_MAP_BACKEND :: "(string \<times> string) list" where
  "LANG_MAP_BACKEND =
    [(''english'', ''en''), (''en'', ''en''), (''hindi'', ''hi''), (''hi'', ''hi''),
     (''spanish'', ''es''), (''es'', ''es''), (''french'', ''fr''), (''fr'', ''fr''),
     (''chinese'', ''zh-CN''), (''chinese_simplified'', ''zh-CN''),
     (''chinese_traditional'', ''zh-TW''), (''japanese'', ''ja''), (''ja'', ''ja''),
     (''korean'', ''ko''), (''ko'', ''ko''), (''german'', ''de''), (''de'', ''de''),
     (''italian'', ''it''), (''it'', ''it''), (''portuguese'', ''pt''), (''pt'', ''pt''),
     (''russian'', ''ru''), (''ru'', ''ru''), (''arabic'', ''ar''), (''ar'', ''ar''),
     (''turkish'', ''tr''), (''tr'', ''tr'')]"

text \<open>
  \<open>LANG_MAP_BACKEND\<close> is an object literal, so \<open>LANG_MAP_BACKEND[key]\<close> also finds
  the members its prototype \<open>Object.prototype\<close> provides. A value read from the table is
  therefore a string or such an inherited member.
\<close>

datatype langval = Str jsstring | Inherited jsstring

definition objectPrototypeNames :: "string list" where
  "objectPrototypeNames =
    [''constructor'', ''__defineGetter__'', ''__defineSetter__'', ''hasOwnProperty'',
     ''__lookupGetter__'', ''__lookupSetter__'', ''isPrototypeOf'', ''propertyIsEnumerable'',
     ''toString'', ''valueOf'', ''__proto__'', ''toLocaleString'']"

definition lookupLang :: "jsstring \<Rightarrow> langval option" where
  \<comment> \<open>\<open>LANG_MAP_BACKEND[key]\<close>; \<open>None\<close> is \<open>undefined\<close>\<close>
  "lookupLang key =
    (case map_of (map (\<lambda>(k, v). (str k, str v)) LANG_MAP_BACKEND) key of
       Some v \<Rightarrow> Some (Str v)
     | None \<Rightarrow> if key \<in> set (map str objectPrototypeNames) then Some (Inherited key) else None)"

definition toJsString :: "langval \<Rightarrow> jsstring" where
  \<comment> \<open>\<open>String(v)\<close>\<close>
  "toJsString v = (case v of
      Str s \<Rightarrow> s
    | Inherited k \<Rightarrow>
        if k = str ''__proto__'' then str ''[object Object]''
        else str ''function '' @ (if k = str ''constructor'' then str ''Object'' else k)
               @ str ''() { [native code] }'')"

definition normLangBackend :: "langval \<Rightarrow> langval" where
  "normLangBackend l =
    (if l = Str [] then Str (str ''auto'')
     else let s = trim (toJsString l)
          in if testAuto s then Str (str ''auto'')
             else if testCode s
             then (case splitDash s of
                     [a, b] \<Rightarrow> Str (toLowerCase a @ str ''-'' @ toUpperCase b)
                   | _ \<Rightarrow> Str (toLowerCase s))
             else (case lookupLang (removeParens (replaceSpaces (toLowerCase s))) of
                     Some v \<Rightarrow> v
                   | None \<Rightarrow> Str (str ''auto'')))"

subsection \<open>Source-language inference\<close>

definition hasUnit :: "nat \<Rightarrow> nat \<Rightarrow> jsstring \<Rightarrow> bool" where
  \<comment> \<open>\<open>/[lo-hi]/.test(text)\<close>\<close>
  "hasUnit lo hi text = list_ex (\<lambda>c. lo \<le> c \<and> c \<le> hi) text"

definition detectScriptFromTextSample :: "jsstring \<Rightarrow> jsstring option" where
  "detectScriptFromTextSample text =
    (if text = [] then None
     else if hasUnit 0x0900 0x097F text then Some (str ''hi'')
     else if hasUnit 0x0400 0x04FF text then Some (str ''ru'')
     else if hasUnit 0x0600 0x06FF text then Some (str ''ar'')
     else if hasUnit 0x4E00 0x9FFF text \<or> hasUnit 0x3400 0x4DBF text then Some (str ''zh-CN'')
     else if hasUnit 0x0E00 0x0E7F text then Some (str ''th'')
     else if hasUnit 0x0590 0x05FF text then Some (str ''he'')
     else None)"

fun addVote :: "(jsstring \<times> nat) list \<Rightarrow> jsstring \<Rightarrow> (jsstring \<times> nat) list" where
  \<comment> \<open>\<open>votes[guess] = (votes[guess] || 0) + 1\<close>; the keys keep their insertion order\<close>
  "addVote [] g = [(g, 1)]"
| "addVote ((k, n) # vs) g = (if k = g then (k, n + 1) # vs else (k, n) # addVote vs g)"

definition countVotes :: "segment list \<Rightarrow> (jsstring \<times> nat) list" where
  "countVotes segs =
    foldl (\<lambda>votes s. case detectScriptFromTextSample (seg_text s) of
                        Some guess \<Rightarrow> addVote votes guess
                      | None \<Rightarrow> votes)
          [] (take 8 segs)"

definition winners :: "(jsstring \<times> nat) list \<Rightarrow> jsstring list" where
  \<comment> \<open>\<open>Object.keys(votes).sort((a, b) => votes[b] - votes[a])\<close>; the sort is stable\<close>
  "winners votes = map fst (sort_key (\<lambda>(k, n). - int n) votes)"

definition inferSource :: "langval \<Rightarrow> segment list \<Rightarrow> langval" where
  \<comment> \<open>the source language after the script vote\<close>
  "inferSource srcLang segs =
    (if (srcLang = Str (str ''auto'') \<or> srcLang = Str (str ''en'')) \<and> segs \<noteq> []
     then (case winners (countVotes segs) of
             inferred # _ \<Rightarrow> if Str inferred \<noteq> srcLang then Str inferred else srcLang
           | [] \<Rightarrow> srcLang)
     else srcLang)"

subsection \<open>Providers\<close>

text \<open>
  The translation providers are outside the program. Each request is recorded in a log,
  and the answer of a provider may depend on the whole log so far, so that no
  assumption is made on what the providers do, only that they answer.
\<close>

datatype call =
    MyMemoryGet jsstring jsstring  \<comment> \<open>\<open>q\<close>, \<open>langpair\<close>\<close>
  | MirrorPost jsstring jsstring jsstring  \<comment> \<open>mirror URL, \<open>q\<close>, \<open>target\<close>\<close>

datatype mm_response =
    MMError  \<comment> \<open>the request throws\<close>
  | MMData "jsstring option"  \<comment> \<open>\<open>r.data?.responseData?.translatedText\<close>\<close>

datatype mirror_response =
    MirrorError
  | MirrorData "jsstring option" "jsstring option"
      \<comment> \<open>\<open>r.data?.translatedText\<close> and \<open>r.data?.translated\<close>\<close>

record env =
  myMemory :: "call list \<Rightarrow> jsstring \<Rightarrow> jsstring \<Rightarrow> mm_response"
  mirrorPost :: "call list \<Rightarrow> jsstring \<Rightarrow> jsstring \<Rightarrow> jsstring \<Rightarrow> mirror_response"
  MIRRORS :: "jsstring list"
  assemblyKey :: bool  \<comment> \<open>\<open>process.env.ASSEMBLYAI_API_KEY\<close> is set\<close>
  getTranscript :: "jsstring \<Rightarrow> transcript option"  \<comment> \<open>\<open>None\<close>: the request throws\<close>
  writeFile :: "jsstring \<Rightarrow> bool"  \<comment> \<open>whether writing the subtitle file succeeds\<close>

fun mirrorsLoop ::
  "env \<Rightarrow> call list \<Rightarrow> jsstring \<Rightarrow> langval \<Rightarrow> jsstring list \<Rightarrow> jsstring \<times> call list" where
  "mirrorsLoop e calls text targetLang [] = (text, calls)"
| "mirrorsLoop e calls text targetLang (mirror # ms) =
    (case targetLang of
       Inherited k \<Rightarrow> mirrorsLoop e calls text targetLang ms
         \<comment> \<open>\<open>targetLang.toLowerCase\<close> is not a function: caught, next mirror\<close>
     | Str t \<Rightarrow>
        (let target = toLowerCase t; calls' = calls @ [MirrorPost mirror text target]
         in case mirrorPost e calls mirror text target of
              MirrorError \<Rightarrow> mirrorsLoop e calls' text targetLang ms
            | MirrorData translatedText translated \<Rightarrow>
                if truthy translatedText then (toStr translatedText, calls')
                else if truthy translated then (toStr translated, calls')
                else mirrorsLoop e calls' text targetLang ms))"

definition translateTextWithFallback ::
  "env \<Rightarrow> call list \<Rightarrow> jsstring \<Rightarrow> langval \<Rightarrow> jsstring \<times> call list" where
  "translateTextWithFallback e calls text targetLang = mirrorsLoop e calls text targetLang (MIRRORS e)"

definition translateWithMyMemory ::
  "env \<Rightarrow> call list \<Rightarrow> jsstring \<Rightarrow> langval \<Rightarrow> langval \<Rightarrow> jsstring \<times> call list" where
  "translateWithMyMemory e calls text srcLang targetLang =
    (let langpair = toJsString srcLang @ str ''|'' @ toJsString targetLang;
         calls' = calls @ [MyMemoryGet text langpair];
         viaMirrors =
           (case translateTextWithFallback e calls' text targetLang of
              (fallback, calls'') \<Rightarrow>
                if fallback \<noteq> [] \<and> fallback \<noteq> text then (fallback, calls'') else (text, calls''))
     in case myMemory e calls text langpair of
          MMData (Some t) \<Rightarrow> if t \<noteq> [] then (t, calls') else viaMirrors
        | _ \<Rightarrow> viaMirrors)"

fun translateLoop ::
  "env \<Rightarrow> langval \<Rightarrow> langval \<Rightarrow> segment list \<Rightarrow> call list \<Rightarrow> segment list
     \<Rightarrow> segment list \<times> call list" where
  \<comment> \<open>the \<open>for (const seg of toTranslateSegments)\<close> loop of \<open>/translate-subtitles\<close>\<close>
  "translateLoop e srcLang tgtLang translated calls [] = (translated, calls)"
| "translateLoop e srcLang tgtLang translated calls (seg # segs) =
    (let original = seg_text seg
     in case translateWithMyMemory e calls original srcLang tgtLang of
          (t, calls') \<Rightarrow>
            (let translatedText = (if t = [] then original else t)
             in translateLoop e srcLang tgtLang
                  (translated @ [seg\<lparr>seg_text := translatedText\<rparr>]) calls' segs))"

subsection \<open>The route\<close>

record request =
  req_segments :: "segment list option"  \<comment> \<open>\<open>None\<close>: not an array\<close>
  req_targetLang :: "jsstring option"
  req_detectedLanguage :: "jsstring option"
  req_transcriptId :: "jsstring option"

datatype response =
    BadRequest jsstring  \<comment> \<open>status 400\<close>
  | ServerError  \<comment> \<open>status 500\<close>
  | Success "segment list"  \<comment> \<open>\<open>{ ok: true, vttUrl, segments }\<close>\<close>

record outcome =
  out_response :: response
  out_calls :: "call list"  \<comment> \<open>the requests made to translation providers\<close>
  out_files :: "jsstring list"  \<comment> \<open>the contents of the subtitle files written\<close>

definition toTranslateSegments :: "env \<Rightarrow> request \<Rightarrow> segment list" where
  \<comment> \<open>the segments of the request, or the ones built from the transcript\<close>
  "toTranslateSegments e req =
    (let segs = (case req_segments req of Some segs \<Rightarrow> segs | None \<Rightarrow> [])
     in if segs = [] \<and> truthy (req_transcriptId req) \<and> assemblyKey e
        then (case getTranscript e (toStr (req_transcriptId req)) of
                Some transcript \<Rightarrow>
                  (let built = buildFromTranscript transcript
                   in if built \<noteq> [] then built else segs)
              | None \<Rightarrow> segs)
        else segs)"

definition sourceLang :: "env \<Rightarrow> request \<Rightarrow> langval" where
  \<comment> \<open>\<open>srcLang\<close> as the route uses it after the script vote\<close>
  "sourceLang e req =
    inferSource
      (if truthy (req_detectedLanguage req)
       then normLangBackend (Str (toStr (req_detectedLanguage req)))
       else Str (str ''auto''))
      (toTranslateSegments e req)"

definition writeVtt :: "env \<Rightarrow> segment list \<Rightarrow> call list \<Rightarrow> outcome" where
  \<comment> \<open>write the subtitle file and answer; a failed write is caught and answered by 500\<close>
  "writeVtt e segs calls =
    (let vttContent = buildVttFromSegments segs
     in if writeFile e vttContent
        then \<lparr>out_response = Success segs, out_calls = calls, out_files = [vttContent]\<rparr>
        else \<lparr>out_response = ServerError, out_calls = calls, out_files = []\<rparr>)"

definition translateSubtitles :: "env \<Rightarrow> request \<Rightarrow> outcome" where
  \<comment> \<open>index.js, \<open>app.post("/translate-subtitles")\<close>\<close>
  "translateSubtitles e req =
    (if \<not> truthy (req_targetLang req)
     then \<lparr>out_response = BadRequest (str ''targetLang required''), out_calls = [], out_files = []\<rparr>
     else
      (let tgtLang = normLangBackend (Str (toStr (req_targetLang req)));
           segs = toTranslateSegments e req;
           srcLang = sourceLang e req
       in if segs = []
          then \<lparr>out_response =
                   BadRequest (str ''No segments to translate (provide segments or transcriptId)''),
                 out_calls = [], out_files = []\<rparr>
          else
           (let simpleSrc = toLowerCase (toJsString srcLang);
                simpleTgt = toLowerCase (toJsString tgtLang)
            in if simpleSrc \<noteq> str ''auto'' \<and> simpleSrc = simpleTgt
               then writeVtt e segs []
               else (case translateLoop e srcLang tgtLang [] [] segs of
                       (translated, calls) \<Rightarrow> writeVtt e translated calls))))"

subsection \<open>What the claims speak of\<close>

fun mirrorsFail :: "env \<Rightarrow> call list \<Rightarrow> jsstring \<Rightarrow> langval \<Rightarrow> jsstring list \<Rightarrow> bool" where
  \<comment> \<open>every request that \<open>translateTextWithFallback\<close> makes for this text after the
      calls so far fails or gives nothing; with a target that is no string every
      attempt throws before a request is made\<close>
  "mirrorsFail e calls text targetLang [] = True"
| "mirrorsFail e calls text (Inherited k) (mirror # ms) = True"
| "mirrorsFail e calls text (Str t) (mirror # ms) =
    ((case mirrorPost e calls mirror text (toLowerCase t) of
        MirrorError \<Rightarrow> True
      | MirrorData translatedText translated \<Rightarrow>
          \<not> truthy translatedText \<and> \<not> truthy translated) \<and>
     mirrorsFail e (calls @ [MirrorPost mirror text (toLowerCase t)]) text (Str t) ms)"

definition providersFail ::
  "env \<Rightarrow> langval \<Rightarrow> langval \<Rightarrow> call list \<Rightarrow> jsstring \<Rightarrow> bool" where
  \<comment> \<open>the requests that \<open>translateWithMyMemory\<close> makes for this text after the calls so
      far: the primary provider and every mirror fail or answer nothing\<close>
  "providersFail e srcLang tgtLang calls text =
    ((case myMemory e calls text (toJsString srcLang @ str ''|'' @ toJsString tgtLang) of
        MMError \<Rightarrow> True
      | MMData t \<Rightarrow> \<not> truthy t) \<and>
     mirrorsFail e
       (calls @ [MyMemoryGet text (toJsString srcLang @ str ''|'' @ toJsString tgtLang)])
       text tgtLang (MIRRORS e))"

fun primaryRequests :: "call list \<Rightarrow> jsstring list" where
  \<comment> \<open>the texts sent to the primary provider, in order\<close>
  "primaryRequests [] = []"
| "primaryRequests (MyMemoryGet q langpair # cs) = q # primaryRequests cs"
| "primaryRequests (MirrorPost mirror q target # cs) = primaryRequests cs"

definition exampleEnv :: env where
  \<comment> \<open>the primary provider fails on the text \<open>x\<close> and answers \<open>hello\<close> otherwise;
      every mirror fails; the file can be written\<close>
  "exampleEnv =
    \<lparr>myMemory = (\<lambda>calls q langpair. if q = str ''x'' then MMError
                                        else MMData (Some (str ''hello''))),
     mirrorPost = (\<lambda>calls mirror q target. MirrorError),
     MIRRORS = [str ''https://libretranslate.de/translate'',
                str ''https://translate.terraprint.co/translate'',
                str ''https://translate.argosopentech.com/translate''],
     assemblyKey = False,
     getTranscript = (\<lambda>transcriptId. None),
     writeFile = (\<lambda>content. True)\<rparr>"

definition flakyEnv :: env where
  \<comment> \<open>the primary provider fails on the first request of a run and answers \<open>hello\<close>
      afterwards; the mirrors answer only for the target \<open>es\<close>\<close>
  "flakyEnv =
    \<lparr>myMemory = (\<lambda>calls q langpair. if calls = [] then MMError
                                        else MMData (Some (str ''hello''))),
     mirrorPost = (\<lambda>calls mirror q target. if target = str ''es''
                                            then MirrorData (Some (str ''hola'')) None
                                            else MirrorError),
     MIRRORS = [str ''https://libretranslate.de/translate'',
                str ''https://translate.terraprint.co/translate'',
                str ''https://translate.argosopentech.com/translate''],
     assemblyKey = False,
     getTranscript = (\<lambda>transcriptId. None),
     writeFile = (\<lambda>content. True)\<rparr>"

definition cue :: "jsstring \<Rightarrow> segment" where
  \<comment> \<open>a cue from 0 s to 1 s\<close>
  "cue t = \<lparr>seg_start = Fin 0, seg_end = Fin 1, seg_text = t\<rparr>"

section \<open>MediaAcquirer\<close>

text \<open>
  The object store, the extraction subprocess and the HTTP client are outside the
  program: each is a function that gives the result of the call, \<open>None\<close> when the call
  throws or rejects. The calls made are recorded as events, in order.
\<close>

datatype event =
    YtDlp jsstring
  | FetchRemote jsstring
  | StreamGet jsstring nat  \<comment> \<open>URL and attempt number\<close>
  | Sleep int  \<comment> \<open>milliseconds\<close>
  | Download jsstring
  | UploadFile jsstring

record store =
  ext_isExternalHttpUrl :: "jsstring \<Rightarrow> bool"  \<comment> \<open>\<open>isExternalHttpUrl\<close>, by the platform's URL parser\<close>
  ext_ytDlp :: "jsstring \<Rightarrow> jsstring option"  \<comment> \<open>the file written when \<open>yt-dlp\<close> exits with 0\<close>
  ext_fetchRemote :: "jsstring \<Rightarrow> jsstring option"  \<comment> \<open>\<open>fetchRemoteToCloudinary\<close>\<close>
  ext_streamUpload :: "jsstring \<Rightarrow> nat \<Rightarrow> jsstring option"
    \<comment> \<open>one attempt of GET and \<open>upload_stream\<close>\<close>
  ext_download :: "jsstring \<Rightarrow> jsstring option"  \<comment> \<open>\<open>downloadVideoFromUrl\<close>: the local file\<close>
  ext_uploadFile :: "jsstring \<Rightarrow> jsstring option"  \<comment> \<open>\<open>uploadVideoFile\<close>\<close>
  ext_random :: "nat \<Rightarrow> rat"  \<comment> \<open>the value of the \<open>n\<close>-th \<open>Math.random()\<close>\<close>

datatype acquired = Cloud jsstring | Failed

definition ATTEMPTS :: nat where
  "ATTEMPTS = 3"

definition retryDelay :: "store \<Rightarrow> nat \<Rightarrow> int" where
  \<comment> \<open>\<open>Math.round((Math.pow(2, attempt) * 1000) + Math.random() * 500)\<close>\<close>
  "retryDelay st attempt = mathRound (fl (2 ^ attempt * 1000 + fl (ext_random st attempt * 500)))"

function streamLoop ::
  "store \<Rightarrow> jsstring \<Rightarrow> nat \<Rightarrow> event list \<Rightarrow> acquired \<times> event list" where
  "streamLoop st remoteUrl attempt evs =
    (if attempt \<le> ATTEMPTS
     then (case ext_streamUpload st remoteUrl attempt of
             Some result \<Rightarrow> (Cloud result, evs @ [StreamGet remoteUrl attempt])
           | None \<Rightarrow>
               if attempt < ATTEMPTS
               then streamLoop st remoteUrl (attempt + 1)
                      (evs @ [StreamGet remoteUrl attempt, Sleep (retryDelay st attempt)])
               else streamLoop st remoteUrl (attempt + 1) (evs @ [StreamGet remoteUrl attempt]))
     else (Failed, evs))"
  by pat_completeness auto
termination
  by (relation "measure (\<lambda>(st, remoteUrl, attempt, evs). ATTEMPTS + 1 - attempt)") auto

definition uploadRemoteUrlToCloudinaryStream :: "store \<Rightarrow> jsstring \<Rightarrow> acquired \<times> event list" where
  \<comment> \<open>cloudinaryClient.js\<close>
  "uploadRemoteUrlToCloudinaryStream st remoteUrl =
    (if remoteUrl = [] then (Failed, []) else streamLoop st remoteUrl 1 [])"

fun jsIncludes :: "jsstring \<Rightarrow> jsstring \<Rightarrow> bool" where
  \<comment> \<open>\<open>s.includes(t)\<close>\<close>
  "jsIncludes [] t = (t = [])"
| "jsIncludes (c # cs) t = (take (length t) (c # cs) = t \<or> jsIncludes cs t)"

definition uploadFromUrl :: "store \<Rightarrow> jsstring \<Rightarrow> acquired \<times> event list" where
  \<comment> \<open>index.js, \<open>app.post("/upload-from-url")\<close> up to the assignment of \<open>cloudResult\<close>\<close>
  "uploadFromUrl st url =
    (if url = [] then (Failed, [])
     else if \<not> ext_isExternalHttpUrl st url then (Failed, [])
     else if jsIncludes url (str ''youtube.com'') \<or> jsIncludes url (str ''youtu.be'')
     then (case ext_ytDlp st url of
             None \<Rightarrow> (Failed, [YtDlp url])
           | Some tempFile \<Rightarrow>
               (case ext_uploadFile st tempFile of
                  Some cloudResult \<Rightarrow> (Cloud cloudResult, [YtDlp url, UploadFile tempFile])
                | None \<Rightarrow> (Failed, [YtDlp url, UploadFile tempFile])))
     else (case ext_fetchRemote st url of
             Some cloudResult \<Rightarrow> (Cloud cloudResult, [FetchRemote url])
           | None \<Rightarrow>
               (case ext_download st url of
                  None \<Rightarrow> (Failed, [FetchRemote url, Download url])
                | Some tempFile \<Rightarrow>
                    (case ext_uploadFile st tempFile of
                       Some cloudResult \<Rightarrow>
                         (Cloud cloudResult, [FetchRemote url, Download url, UploadFile tempFile])
                     | None \<Rightarrow> (Failed, [FetchRemote url, Download url, UploadFile tempFile])))))"

definition isStreamGet :: "event \<Rightarrow> bool" where
  "isStreamGet ev = (case ev of StreamGet u n \<Rightarrow> True | _ \<Rightarrow> False)"


section \<open>Properties of the number model\<close>

lemma rne_of_int: "rne (of_int k) = k"
  by (simp add: rne_def)

lemma rne_floor: "rne x = \<lfloor>x\<rfloor> \<or> rne x = \<lfloor>x\<rfloor> + 1"
  by (simp add: rne_def Let_def)

lemma rne_mono:
  assumes "x \<le> y"
  shows "rne x \<le> rne y"
proof (cases "\<lfloor>x\<rfloor> = \<lfloor>y\<rfloor>")
  case True
  then show ?thesis using assms by (auto simp: rne_def Let_def)
next
  case False
  then have "\<lfloor>x\<rfloor> < \<lfloor>y\<rfloor>" using floor_mono [OF assms] by simp
  moreover have "rne x \<le> \<lfloor>x\<rfloor> + 1" using rne_floor [of x] by auto
  moreover have "\<lfloor>y\<rfloor> \<le> rne y" using rne_floor [of y] by auto
  ultimately show ?thesis by linarith
qed

lemma rne_ge_int: "of_int k \<le> y \<Longrightarrow> k \<le> rne y"
  using rne_mono [of "of_int k" y] by (simp add: rne_of_int)

lemma rne_le_int: "y \<le> of_int k \<Longrightarrow> rne y \<le> k"
  using rne_mono [of y "of_int k"] by (simp add: rne_of_int)

lemma rne_below_half:
  assumes "y < of_int N - 1/2"
  shows "rne y < N"
proof -
  have "\<lfloor>y\<rfloor> < N" using assms by (simp add: floor_less_iff)
  then have "\<lfloor>y\<rfloor> + 1 < N \<or> \<lfloor>y\<rfloor> + 1 = N" by linarith
  then show ?thesis
  proof
    assume "\<lfloor>y\<rfloor> + 1 < N"
    then show ?thesis using rne_floor [of y] by auto
  next
    assume e: "\<lfloor>y\<rfloor> + 1 = N"
    then have "of_int N = of_int \<lfloor>y\<rfloor> + (1::rat)" by (metis of_int_add of_int_1)
    then have "y - of_int \<lfloor>y\<rfloor> < 1/2" using assms by simp
    then have "rne y = \<lfloor>y\<rfloor>" by (simp add: rne_def Let_def)
    then show ?thesis using e by simp
  qed
qed

lemma rne_uminus: "rne (- y) = - rne y"
proof (cases "y = of_int \<lfloor>y\<rfloor>")
  case True
  then obtain k where "y = of_int k" by (rule that)
  then show ?thesis using rne_of_int [of "- k"] by (simp add: rne_of_int)
next
  case False
  then have "\<lceil>y\<rceil> = \<lfloor>y\<rfloor> + 1" by (simp add: ceiling_altdef)
  then have f: "\<lfloor>- y\<rfloor> = - \<lfloor>y\<rfloor> - 1" by (simp add: ceiling_def)
  have lt: "of_int \<lfloor>y\<rfloor> < y" by (metis False of_int_floor_le order_le_less)
  show ?thesis
    unfolding rne_def Let_def f using lt by (auto simp: field_simps)
qed

lemma bitlen_rat_bounds:
  assumes "0 < p"
  shows "(2::rat) powi (bitlen p - 1) \<le> of_int p \<and> of_int p < (2::rat) powi (bitlen p)"
proof -
  have pos: "0 < bitlen p"
    using assms bitlen_nonneg [of p] bitlen_eq_zero_iff [of p] by linarith
  have "(of_int (2 ^ nat (bitlen p - 1)) :: rat) \<le> of_int p"
    using bitlen_bounds [OF assms] by (simp only: of_int_le_iff)
  moreover have "(of_int p :: rat) < of_int (2 ^ nat (bitlen p))"
    using bitlen_bounds [OF assms] by (simp only: of_int_less_iff)
  ultimately show ?thesis using pos by (simp add: power_int_def)
qed

lemma ilog2_bounds:
  assumes "0 < x"
  shows "2 powi (ilog2 x) \<le> x \<and> x < 2 powi (ilog2 x + 1)"
proof -
  obtain p q where pq: "quotient_of x = (p, q)" by (cases "quotient_of x")
  have q: "0 < q" using pq by (rule quotient_of_denom_pos)
  have x: "x = of_int p / of_int q" using pq by (rule quotient_of_div)
  have p: "0 < p" using assms q x by (simp add: zero_less_divide_iff)
  let ?e = "bitlen p - bitlen q"
  have bpos: "0 < bitlen p" "0 < bitlen q"
    using p q bitlen_nonneg [of p] bitlen_nonneg [of q]
      bitlen_eq_zero_iff [of p] bitlen_eq_zero_iff [of q] by linarith+
  have bp: "(2::rat) powi (bitlen p - 1) \<le> of_int p" "of_int p < (2::rat) powi (bitlen p)"
    using bitlen_rat_bounds [OF p] by simp_all
  have bq: "(2::rat) powi (bitlen q - 1) \<le> of_int q" "of_int q < (2::rat) powi (bitlen q)"
    using bitlen_rat_bounds [OF q] by simp_all
  have qpos: "(0::rat) < of_int q" using q by simp
  have "2 powi (?e - 1) * of_int q \<le> (2::rat) powi (?e - 1) * 2 powi (bitlen q)"
    using bq(2) by (simp add: mult_left_mono)
  also have "\<dots> = 2 powi (bitlen p - 1)"
    by (simp flip: power_int_add)
  also have "\<dots> \<le> of_int p" by (rule bp(1))
  finally have lo: "2 powi (?e - 1) \<le> x"
    unfolding x using qpos by (simp add: pos_le_divide_eq)
  have "of_int p < (2::rat) powi (bitlen p)" by (rule bp(2))
  also have "\<dots> = 2 powi (?e + 1) * 2 powi (bitlen q - 1)"
    by (simp flip: power_int_add)
  also have "\<dots> \<le> 2 powi (?e + 1) * of_int q"
    using bq(1) by (simp add: mult_left_mono)
  finally have hi: "x < 2 powi (?e + 1)"
    unfolding x using qpos by (simp add: pos_divide_less_eq)
  show ?thesis
    using lo hi pq by (auto simp: ilog2_def Let_def)
qed


lemma scale_mono: "i \<le> j \<Longrightarrow> 0 < (q::rat) \<Longrightarrow> of_int i * q \<le> of_int j * q"
  by (simp add: mult_right_mono)

lemma fl_pos_eq:
  "0 < x \<Longrightarrow> fl x = of_int (rne (x / 2 powi (ilog2 x - 52))) * 2 powi (ilog2 x - 52)"
  by (simp add: fl_def Let_def)

lemma fl_uminus: "fl (- x) = - fl x"
  by (simp add: fl_def Let_def rne_uminus)

lemma fl_bounds:
  assumes "0 < x"
  shows "2 powi (ilog2 x) \<le> fl x \<and> fl x \<le> 2 powi (ilog2 x + 1)"
proof -
  let ?e = "ilog2 x"
  let ?q = "(2::rat) powi (?e - 52)"
  have q: "0 < ?q" by simp
  have e52: "(2::rat) powi ?e = of_int (2 ^ 52) * ?q"
    using power_int_add [of "2::rat" 52 "?e - 52"] by simp
  have "?e + 1 = 53 + (?e - 52)" by simp
  then have e53: "(2::rat) powi (?e + 1) = of_int (2 ^ 53) * ?q"
    using power_int_add [of "2::rat" 53 "?e - 52"] by (simp only:) simp
  have "of_int (2 ^ 52) \<le> x / ?q"
    using ilog2_bounds [OF assms] q e52 by (simp add: pos_le_divide_eq)
  then have lo: "2 ^ 52 \<le> rne (x / ?q)" by (rule rne_ge_int)
  have "x / ?q \<le> of_int (2 ^ 53)"
    using ilog2_bounds [OF assms] q e53 by (simp add: pos_divide_le_eq)
  then have hi: "rne (x / ?q) \<le> 2 ^ 53" by (rule rne_le_int)
  have "of_int (2 ^ 52) * ?q \<le> of_int (rne (x / ?q)) * ?q"
    using lo q by (rule scale_mono)
  moreover have "of_int (rne (x / ?q)) * ?q \<le> of_int (2 ^ 53) * ?q"
    using hi q by (rule scale_mono)
  ultimately show ?thesis
    unfolding fl_pos_eq [OF assms] e52 e53 by simp
qed

lemma fl_mono_pos:
  assumes "0 < x" "x \<le> y"
  shows "fl x \<le> fl y"
proof -
  have y: "0 < y" using assms by simp
  have "\<not> ilog2 y + 1 \<le> ilog2 x"
  proof
    assume "ilog2 y + 1 \<le> ilog2 x"
    then have "(2::rat) powi (ilog2 y + 1) \<le> 2 powi (ilog2 x)"
      by (intro power_int_increasing) simp_all
    then show False
      using ilog2_bounds [OF assms(1)] ilog2_bounds [OF y] assms(2) by linarith
  qed
  then have "ilog2 x = ilog2 y \<or> ilog2 x + 1 \<le> ilog2 y" by linarith
  then show ?thesis
  proof
    assume e: "ilog2 x = ilog2 y"
    have "x / 2 powi (ilog2 y - 52) \<le> y / 2 powi (ilog2 y - 52)"
      using assms(2) by (simp add: divide_right_mono)
    then have "rne (x / 2 powi (ilog2 y - 52)) \<le> rne (y / 2 powi (ilog2 y - 52))"
      by (rule rne_mono)
    then show ?thesis
      unfolding fl_pos_eq [OF assms(1)] fl_pos_eq [OF y] e
      by (intro mult_right_mono) simp_all
  next
    assume "ilog2 x + 1 \<le> ilog2 y"
    then have "(2::rat) powi (ilog2 x + 1) \<le> 2 powi (ilog2 y)"
      by (intro power_int_increasing) simp_all
    then show ?thesis
      using fl_bounds [OF assms(1)] fl_bounds [OF y] by linarith
  qed
qed

lemma fl_pos: "0 < x \<Longrightarrow> 0 < fl x"
  using fl_bounds [of x] zero_less_power_int [of "2::rat" "ilog2 x"] by linarith

lemma fl_zero: "fl 0 = 0"
  by (simp add: fl_def)

lemma fl_mono:
  assumes "x \<le> y"
  shows "fl x \<le> fl y"
proof -
  consider "0 < x" | "x \<le> 0" "0 \<le> y" | "y < 0" by linarith
  then show ?thesis
  proof cases
    case 1
    then show ?thesis using assms by (rule fl_mono_pos)
  next
    case 2
    have "fl x \<le> 0"
      using 2(1) fl_pos [of "- x"] by (cases "x = 0") (simp_all add: fl_zero fl_uminus)
    moreover have "0 \<le> fl y"
      using 2(2) fl_pos [of y] by (cases "y = 0") (simp_all add: fl_zero)
    ultimately show ?thesis by simp
  next
    case 3
    then have "fl (- y) \<le> fl (- x)" using assms by (intro fl_mono_pos) simp_all
    then show ?thesis by (simp add: fl_uminus)
  qed
qed

lemma fl_floor_div:
  assumes "0 \<le> m" "m < 2 ^ 53" "0 < b"
  shows "\<lfloor>fl (of_int m / of_int b)\<rfloor> = m div b"
proof (cases "m = 0")
  case True
  then show ?thesis by (simp add: fl_zero)
next
  case False
  let ?x = "of_int m / of_int b :: rat"
  let ?k = "m div b"
  let ?e = "ilog2 ?x"
  let ?q = "(2::rat) powi (?e - 52)"
  have bpos: "(0::rat) < of_int b" using assms by simp
  have x: "0 < ?x" using assms False by simp
  have q: "0 < ?q" by simp
  have xlt: "?x < 2 ^ 53 / of_int b"
  proof -
    have "(of_int m :: rat) < of_int (2 ^ 53)" using assms(2) by (simp only: of_int_less_iff)
    then show ?thesis using bpos by (simp add: divide_strict_right_mono)
  qed
  have e: "?e \<le> 52"
  proof (rule ccontr)
    assume "\<not> ?e \<le> 52"
    then have "(2::rat) powi 53 \<le> 2 powi ?e" by (intro power_int_increasing) simp_all
    moreover have "(2::rat) ^ 53 / of_int b \<le> 2 ^ 53"
      using assms(3) by (simp add: pos_divide_le_eq)
    ultimately show False using ilog2_bounds [OF x] xlt by simp
  qed
  define n where "n = nat (52 - ?e)"
  have qn: "?q = 1 / 2 ^ n"
    using e by (simp add: n_def power_int_def field_simps)
  have qinv: "\<And>j. of_int j / ?q = (of_int (j * 2 ^ n) :: rat)" by (simp add: qn)
  have dm: "m = b * ?k + m mod b" by simp
  have md: "0 \<le> m mod b" "m mod b < b" using assms(3) by simp_all
  have "b * ?k \<le> m" using dm md by linarith
  then have "(of_int (b * ?k) :: rat) \<le> of_int m" by (simp only: of_int_le_iff)
  then have klo: "of_int ?k \<le> ?x"
    using bpos by (simp add: pos_le_divide_eq mult.commute)
  have "of_int ?k / ?q \<le> ?x / ?q"
    using klo q by (intro divide_right_mono) simp_all
  then have "of_int (?k * 2 ^ n) \<le> ?x / ?q" by (simp only: qinv)
  then have "?k * 2 ^ n \<le> rne (?x / ?q)" by (rule rne_ge_int)
  then have "(of_int (?k * 2 ^ n) :: rat) * ?q \<le> of_int (rne (?x / ?q)) * ?q"
    using q by (rule scale_mono)
  then have lo: "of_int ?k \<le> fl ?x"
    unfolding fl_pos_eq [OF x] by (simp add: qn)
  have "b * (?k + 1) = b * ?k + b" by (simp add: distrib_left)
  then have "m < b * (?k + 1)" using dm md by linarith
  then have "m + 1 \<le> b * (?k + 1)" by simp
  then have "(of_int (m + 1) :: rat) \<le> of_int (b * (?k + 1))" by (simp only: of_int_le_iff)
  then have xhi: "?x \<le> of_int (?k + 1) - 1 / of_int b"
    using bpos by (simp add: field_simps)
  have "2 powi ?e < 2 ^ 53 / (of_int b :: rat)"
    using ilog2_bounds [OF x] xlt by simp
  then have "of_int b * ?q < 2"
    using bpos power_int_add [of "2::rat" 52 "?e - 52"] by (simp add: field_simps)
  then have "1 / 2 < 1 / of_int b / ?q"
    using bpos q by (simp add: field_simps)
  moreover have "?x / ?q \<le> (of_int (?k + 1) - 1 / of_int b) / ?q"
    using xhi q by (intro divide_right_mono) simp_all
  moreover have "(of_int (?k + 1) - 1 / of_int b) / ?q
      = of_int ((?k + 1) * 2 ^ n) - 1 / of_int b / ?q"
    by (simp only: diff_divide_distrib qinv)
  ultimately have "?x / ?q < of_int ((?k + 1) * 2 ^ n) - 1 / 2"
    by linarith
  then have "rne (?x / ?q) < (?k + 1) * 2 ^ n" by (rule rne_below_half)
  then have "rne (?x / ?q) + 1 \<le> (?k + 1) * 2 ^ n" by simp
  then have "(of_int (rne (?x / ?q) + 1) :: rat) \<le> of_int ((?k + 1) * 2 ^ n)"
    by (simp only: of_int_le_iff)
  then have "of_int (rne (?x / ?q) + 1) * ?q \<le> (of_int ((?k + 1) * 2 ^ n) :: rat) * ?q"
    using q by (intro mult_right_mono) simp_all
  moreover have "(of_int ((?k + 1) * 2 ^ n) :: rat) * ?q = of_int (?k + 1)"
    by (simp add: qn)
  moreover have "of_int (rne (?x / ?q) + 1) * ?q = of_int (rne (?x / ?q)) * ?q + ?q"
    by (simp add: distrib_right)
  ultimately have "fl ?x + ?q \<le> of_int (?k + 1)"
    unfolding fl_pos_eq [OF x] by linarith
  moreover have "(of_int (?k + 1) :: rat) = of_int ?k + 1" by simp
  ultimately have hi: "fl ?x < of_int ?k + 1" using q by linarith
  show ?thesis using lo hi by (simp add: floor_unique)
qed

lemma fl_nonneg: "0 \<le> x \<Longrightarrow> 0 \<le> fl x"
  using fl_mono [of 0 x] by (simp add: fl_zero)

lemma floorDiv_exact: "0 \<le> a \<Longrightarrow> a < 2 ^ 53 \<Longrightarrow> 0 < b \<Longrightarrow> floorDiv a b = a div b"
  unfolding floorDiv_def by (rule fl_floor_div)

lemma jsRem_nonneg: "0 \<le> a \<Longrightarrow> 0 < b \<Longrightarrow> jsRem a b = a mod b"
  by (cases "a = 0") (simp_all add: jsRem_def)

lemma div_of_mod:
  assumes "0 \<le> (m::int)" "0 < b" "0 < c"
  shows "(m mod (b * c)) div b = (m div b) mod c"
proof -
  have "m mod (b * c) = b * (m div b mod c) + m mod b"
    using assms by (simp add: zmod_zmult2_eq)
  then show ?thesis using assms by simp
qed

lemma split_hours: "0 \<le> (m::int) \<Longrightarrow> m div 3600000 = m div 1000 div 60 div 60"
  by (simp add: zdiv_zmult2_eq)

lemma split_minutes:
  assumes "0 \<le> (m::int)"
  shows "(m mod 3600000) div 60000 = m div 1000 div 60 mod 60"
proof -
  have a: "m div 1000 div 60 = m div (1000 * 60)"
    by (rule zdiv_zmult2_eq [symmetric]) simp
  have b: "(m mod (60000 * 60)) div 60000 = (m div 60000) mod 60"
    by (rule div_of_mod [OF assms]) simp_all
  have c: "(60000::int) * 60 = 3600000" "(1000::int) * 60 = 60000" by simp_all
  show ?thesis using b unfolding a c .
qed

lemma split_secs: "0 \<le> (m::int) \<Longrightarrow> (m mod 60000) div 1000 = m div 1000 mod 60"
  using div_of_mod [of m 1000 60] by simp

section \<open>TimeCodec: the two encoders\<close>

lemma secToVttTimestamp_eq_local: "secToVttTimestamp t = toVttTime' t"
  by (simp add: secToVttTimestamp_def toVttTime'_def)

lemma truncating_fields:
  assumes "0 \<le> m" "m < 2 ^ 53"
  shows "floorDiv m 3600000 = m div 1000 div 60 div 60"
    and "floorDiv (jsRem m 3600000) 60000 = m div 1000 div 60 mod 60"
    and "floorDiv (jsRem m 60000) 1000 = m div 1000 mod 60"
proof -
  show "floorDiv m 3600000 = m div 1000 div 60 div 60"
    using assms by (simp add: floorDiv_exact split_hours)
  have "m mod 3600000 \<le> m" using assms(1) by (simp add: zmod_le_nonneg_dividend)
  then have "floorDiv (m mod 3600000) 60000 = (m mod 3600000) div 60000"
    using assms by (intro floorDiv_exact) simp_all
  then show "floorDiv (jsRem m 3600000) 60000 = m div 1000 div 60 mod 60"
    using assms(1) by (simp add: jsRem_nonneg split_minutes)
  have "m mod 60000 \<le> m" using assms(1) by (simp add: zmod_le_nonneg_dividend)
  then have "floorDiv (m mod 60000) 1000 = (m mod 60000) div 1000"
    using assms by (intro floorDiv_exact) simp_all
  then show "floorDiv (jsRem m 60000) 1000 = m div 1000 mod 60"
    using assms(1) by (simp add: jsRem_nonneg split_secs)
qed

lemma int_div_le: "0 \<le> (a::int) \<Longrightarrow> a div b \<le> a"
  by (cases "a = 0") (simp_all add: int_div_le_self)

lemma rounding_fields:
  assumes "0 \<le> m" "m < 2 ^ 53"
  shows "floorDiv m 1000 = m div 1000"
    and "floorDiv (m div 1000) 60 = m div 1000 div 60"
    and "floorDiv (m div 1000 div 60) 60 = m div 1000 div 60 div 60"
proof -
  show "floorDiv m 1000 = m div 1000"
    using assms by (simp add: floorDiv_exact)
  have a: "0 \<le> m div 1000" "m div 1000 \<le> m"
    using assms(1) by (simp_all add: pos_imp_zdiv_nonneg_iff int_div_le)
  then show "floorDiv (m div 1000) 60 = m div 1000 div 60"
    using assms(2) by (intro floorDiv_exact) simp_all
  have b: "0 \<le> m div 1000 div 60" "m div 1000 div 60 \<le> m div 1000"
    using a(1) by (simp_all add: pos_imp_zdiv_nonneg_iff int_div_le)
  then show "floorDiv (m div 1000 div 60) 60 = m div 1000 div 60 div 60"
    using assms(2) a(2) by (intro floorDiv_exact) simp_all
qed

lemma encoders_same_ms:
  assumes "0 \<le> m" "m < 2 ^ 53" "\<lfloor>fl (orNum t 0 * 1000)\<rfloor> = m"
    and "mathRound (fl (orNum t 0 * 1000)) = m"
  shows "toVttTime t = secToVttTimestamp t"
proof -
  have c: "0 \<le> m div 1000" "0 \<le> m div 1000 div 60"
    using assms(1) by (simp_all add: pos_imp_zdiv_nonneg_iff)
  show ?thesis
    unfolding toVttTime_def secToVttTimestamp_def Let_def assms(3,4)
      truncating_fields [OF assms(1,2)] rounding_fields [OF assms(1,2)]
    using assms(1) c by (simp add: jsRem_nonneg)
qed



text \<open>
  C7 (amended). The rounding encoder \<open>secToVttTimestamp\<close> and the local encoder of
  \<open>buildVttFromSegments\<close> are the same function. The truncating \<open>toVttTime\<close> gives the
  same string as they do for every non-negative input whose millisecond value
  \<open>sec * 1000\<close>, as the code computes it in doubles, is below \<open>2^53\<close> and has a
  fractional part below one half.
\<close>

theorem encoders_agree:
  assumes "0 \<le> r" and "fl (r * 1000) < 2 ^ 53" and "frac (fl (r * 1000)) < 1 / 2"
  shows "toVttTime (Fin r) = secToVttTimestamp (Fin r) \<and>
         secToVttTimestamp (Fin r) = toVttTime' (Fin r)"
proof -
  let ?x = "fl (r * 1000)"
  have t: "orNum (Fin r) 0 = r" by (simp add: orNum_def)
  have x0: "0 \<le> ?x" using assms(1) by (intro fl_nonneg) simp
  have m0: "0 \<le> \<lfloor>?x\<rfloor>" using x0 by simp
  have "of_int \<lfloor>?x\<rfloor> \<le> ?x" by simp
  then have "(of_int \<lfloor>?x\<rfloor> :: rat) < of_int (2 ^ 53)" using assms(2) by simp
  then have m1: "\<lfloor>?x\<rfloor> < 2 ^ 53" by (simp only: of_int_less_iff)
  have "?x + 1 / 2 < of_int \<lfloor>?x\<rfloor> + 1" using assms(3) by (simp add: frac_def)
  moreover have "of_int \<lfloor>?x\<rfloor> \<le> ?x + 1 / 2"
    using of_int_floor_le [of ?x] by linarith
  ultimately have r: "mathRound ?x = \<lfloor>?x\<rfloor>"
    unfolding mathRound_def by (simp add: floor_unique)
  have "toVttTime (Fin r) = secToVttTimestamp (Fin r)"
    using m0 m1 by (rule encoders_same_ms) (simp_all add: t r)
  then show ?thesis by (simp add: secToVttTimestamp_eq_local)
qed

theorem encoders_agree_witness:
  "(0::rat) \<le> 5 / 4 \<and> fl (5 / 4 * 1000) < 2 ^ 53 \<and> frac (fl (5 / 4 * 1000)) < 1 / 2 \<and>
   toVttTime (Fin (5 / 4)) = secToVttTimestamp (Fin (5 / 4)) \<and>
   secToVttTimestamp (Fin (5 / 4)) = toVttTime' (Fin (5 / 4))"
proof -
  have h0: "(0::rat) \<le> 5 / 4" by simp
  have h1: "fl (5 / 4 * 1000) < 2 ^ 53" by code_simp
  have h2: "frac (fl (5 / 4 * 1000)) < 1 / 2" unfolding frac_def by code_simp
  show ?thesis using encoders_agree [OF h0 h1 h2] h0 h1 h2 by simp
qed

text \<open>
  C7 as stated fails: \<open>2^-10\<close> seconds are \<open>0.9765625\<close> milliseconds, which
  \<open>toVttTime\<close> truncates to 0 and \<open>secToVttTimestamp\<close> rounds to 1. It also fails on
  a timestamp of whole milliseconds as the pipeline makes it: 1005 ms divided by 1000
  is the double nearest to \<open>1.005\<close>, whose product with 1000 is the double
  \<open>1004.9999999999999\<close>, truncated to 1004 and rounded to 1005.
\<close>

theorem encoders_differ_counterexample:
  "toVttTime (Fin (1 / 1024)) = str ''00:00:00.000'' \<and>
   secToVttTimestamp (Fin (1 / 1024)) = str ''00:00:00.001'' \<and>
   toVttTime (jsDiv (Fin 1005) 1000) = str ''00:00:01.004'' \<and>
   secToVttTimestamp (jsDiv (Fin 1005) 1000) = str ''00:00:01.005''"
  by code_simp

section \<open>CueBuilder: closing a cue\<close>

lemma foldl_appendWord_nonempty:
  "acc \<noteq> [] \<Longrightarrow> foldl appendWord acc ts = acc @ concat (map (\<lambda>t. [32] @ t) ts)"
  by (induction ts arbitrary: acc) (simp_all add: appendWord_def)

lemma jsJoin_Cons: "jsJoin sep (t # ts) = t @ concat (map (\<lambda>t. sep @ t) ts)"
  by (induction ts arbitrary: t) simp_all

lemma foldl_appendWord_join:
  assumes "[] \<notin> set ts"
  shows "foldl appendWord [] ts = jsJoin (str '' '') ts"
proof (cases ts)
  case Nil
  then show ?thesis by simp
next
  case (Cons t ts')
  then have "t \<noteq> []" using assms by auto
  then have "foldl appendWord [] (t # ts') = t @ concat (map (\<lambda>t. [32] @ t) ts')"
    by (simp add: appendWord_def foldl_appendWord_nonempty)
  then show ?thesis
    unfolding Cons by (simp add: jsJoin_Cons del: jsJoin.simps)
qed

lemma wordsLoop_open:
  assumes "map wtext ws = map Some ts" and "[] \<notin> set ts"
    and "\<forall>w \<in> set ws. \<not> jsGt (jsSub (jsDiv (wend w) 1000) blockTime) 5"
  shows "wordsLoop segments \<lparr>o_start = st, o_end = en, o_text = Some tx\<rparr> blockTime ws =
         Inr (segments, \<lparr>o_start = st,
                          o_end = (if ws = [] then en else jsDiv (wend (last ws)) 1000),
                          o_text = Some (foldl appendWord tx ts)\<rparr>)"
  using assms
proof (induction ws arbitrary: ts tx en)
  case Nil
  then show ?case by simp
next
  case (Cons w ws)
  then obtain t ts' where ts: "ts = t # ts'" and t: "wtext w = Some t" "t \<noteq> []"
    and rest: "map wtext ws = map Some ts'" "[] \<notin> set ts'"
    by (cases ts) auto
  have tw: "toStr (textOrWord w) = t" using t by (simp add: textOrWord_def toStr_def)
  have ng: "\<not> jsGt (jsSub (jsDiv (wend w) 1000) blockTime) 5" using Cons.prems(3) by simp
  have later: "\<forall>w \<in> set ws. \<not> jsGt (jsSub (jsDiv (wend w) 1000) blockTime) 5"
    using Cons.prems(3) by simp
  show ?case
    using Cons.IH [OF rest later, of "jsDiv (wend w) 1000" "appendWord tx t"] ng
    by (simp add: tw ts Let_def)
qed

lemma span_mono:
  assumes "e \<le> e'" and "fl (fl (e' / 1000) - c) \<le> 5"
  shows "\<not> jsGt (jsSub (jsDiv (Fin e) 1000) (Fin c)) 5"
proof -
  have "fl (e / 1000) \<le> fl (e' / 1000)"
    using assms(1) by (intro fl_mono divide_right_mono) simp_all
  then have "fl (fl (e / 1000) - c) \<le> fl (fl (e' / 1000) - c)"
    by (intro fl_mono) simp
  then show ?thesis
    using assms(2) by (simp add: jsGt_def jsSub_def jsDiv_def)
qed

text \<open>
  C1. On the words \<open>(0 s, 3 s)\<close>, \<open>(3 s, 4 s)\<close>, \<open>(4 s, 9 s)\<close> the loop appends the
  third word to the open cue and sets the cue's end to 9 before it tests the span, so
  the cue it closes is \<open>[0, 9]\<close> with all three words, and the third word is also the
  next cue. The claim asks for \<open>[0, 4)\<close> with the first two words. Both copies of the
  loop do this.
\<close>

theorem overflowing_word_in_both_cues:
  "buildSegments \<lparr>t_words = Some [word ''a'' 0 3000, word ''b'' 3000 4000, word ''c'' 4000 9000],
                   t_text = None, t_audio_duration = NaN\<rparr>
     = Inr [\<lparr>seg_start = Fin 0, seg_end = Fin 9, seg_text = str ''a b c''\<rparr>,
            \<lparr>seg_start = Fin 4, seg_end = Fin 9, seg_text = str ''c''\<rparr>] \<and>
   buildFromTranscript
       \<lparr>t_words = Some [word ''a'' 0 3000, word ''b'' 3000 4000, word ''c'' 4000 9000],
        t_text = None, t_audio_duration = NaN\<rparr>
     = [\<lparr>seg_start = Fin 0, seg_end = Fin 9, seg_text = str ''a b c''\<rparr>,
        \<lparr>seg_start = Fin 4, seg_end = Fin 9, seg_text = str ''c''\<rparr>]"
  by code_simp

lemma sorted_le_last: "sorted xs \<Longrightarrow> x \<in> set xs \<Longrightarrow> x \<le> last xs"
  by (induction xs) auto

text \<open>
  C9 (amended). For every non-empty stream of words in temporal order (end times not
  decreasing), each with a non-empty text, whose total span \<open>lastEnd - firstStart\<close>, in
  seconds as the loop computes it, is at most 5.0, exactly 5.0 included, the builder
  gives exactly one cue: it spans from the first start to the last end and its text is
  the texts joined by single spaces.
\<close>

theorem single_cue:
  assumes "t_words result = Some ws" and "ws \<noteq> []"
    and "map wtext ws = map Some ts" and "[] \<notin> set ts"
    and "wstart (hd ws) = Fin s0" and "map wend ws = map Fin es" and "sorted es"
    and "fl (fl (last es / 1000) - fl (s0 / 1000)) \<le> 5"
  shows "buildSegments result =
         Inr [\<lparr>seg_start = Fin (fl (s0 / 1000)), seg_end = Fin (fl (last es / 1000)),
               seg_text = jsJoin (str '' '') ts\<rparr>]"
proof -
  obtain w0 rest where ws: "ws = w0 # rest" using assms(2) by (cases ws) auto
  have tw: "t_words result = Some (w0 # rest)" using assms(1) ws by simp
  have s0: "jsDiv (wstart w0) 1000 = Fin (fl (s0 / 1000))"
    using assms(5) by (simp add: ws jsDiv_def)
  have fits: "\<forall>w \<in> set ws. \<not> jsGt (jsSub (jsDiv (wend w) 1000) (Fin (fl (s0 / 1000)))) 5"
  proof
    fix w assume "w \<in> set ws"
    then have "wend w \<in> set (map wend ws)" by simp
    then have "wend w \<in> set (map Fin es)" by (simp only: assms(6))
    then obtain e where e: "e \<in> set es" "wend w = Fin e" by auto
    have "e \<le> last es" using assms(7) e(1) by (rule sorted_le_last)
    then show "\<not> jsGt (jsSub (jsDiv (wend w) 1000) (Fin (fl (s0 / 1000)))) 5"
      unfolding e(2) using assms(8) by (rule span_mono)
  qed
  have "last (map wend ws) = last (map Fin es)" by (simp only: assms(6))
  moreover have "es \<noteq> []" using assms(6) assms(2) by auto
  ultimately have "wend (last ws) = Fin (last es)"
    using assms(2) by (simp add: last_map)
  then have en: "jsDiv (wend (last ws)) 1000 = Fin (fl (last es / 1000))"
    by (simp add: jsDiv_def)
  obtain t ts' where ts: "ts = t # ts'" using assms(3) ws by (cases ts) auto
  have "t \<noteq> []" using assms(4) ts by auto
  then have ne: "jsJoin (str '' '') ts \<noteq> []"
    unfolding ts by (simp add: jsJoin_Cons del: jsJoin.simps)
  have "wordsLoop [] \<lparr>o_start = Fin (fl (s0 / 1000)), o_end = NaN, o_text = Some []\<rparr>
          (Fin (fl (s0 / 1000))) ws
        = Inr ([], \<lparr>o_start = Fin (fl (s0 / 1000)), o_end = Fin (fl (last es / 1000)),
                     o_text = Some (jsJoin (str '' '') ts)\<rparr>)"
    using wordsLoop_open [OF assms(3,4) fits] assms(2)
    by (simp add: en foldl_appendWord_join [OF assms(4)])
  then have wl: "wordsLoop [] \<lparr>o_start = Fin (fl (s0 / 1000)), o_end = NaN, o_text = Some []\<rparr>
          (Fin (fl (s0 / 1000))) (w0 # rest)
        = Inr ([], \<lparr>o_start = Fin (fl (s0 / 1000)), o_end = Fin (fl (last es / 1000)),
                     o_text = Some (jsJoin (str '' '') ts)\<rparr>)"
    by (simp only: ws)
  show ?thesis
    unfolding buildSegments_def tw
    using ne by (simp add: s0 wl del: wordsLoop.simps)
qed

theorem single_cue_witness:
  "buildSegments \<lparr>t_words = Some [word ''a'' 0 3000, word ''b'' 3000 5000],
                   t_text = None, t_audio_duration = NaN\<rparr>
     = Inr [\<lparr>seg_start = Fin 0, seg_end = Fin 5, seg_text = str ''a b''\<rparr>]"
proof -
  let ?ws = "[word ''a'' 0 3000, word ''b'' 3000 5000]"
  let ?r = "\<lparr>t_words = Some ?ws, t_text = None, t_audio_duration = NaN\<rparr>"
  have h1: "t_words ?r = Some ?ws" by simp
  have h2: "?ws \<noteq> []" by simp
  have h3: "map wtext ?ws = map Some [str ''a'', str ''b'']" by (simp add: word_def)
  have h4: "[] \<notin> set [str ''a'', str ''b'']" by simp
  have h5: "wstart (hd ?ws) = Fin 0" by (simp add: word_def)
  have h6: "map wend ?ws = map Fin [3000, 5000]" by (simp add: word_def)
  have h7: "sorted [3000, 5000 :: rat]" by simp
  have f: "fl 5 = 5" "fl 0 = 0" by code_simp+
  have h8: "fl (fl (last [3000, 5000] / 1000) - fl (0 / 1000)) \<le> 5" by code_simp
  show ?thesis
    using single_cue [OF h1 h2 h3 h4 h5 h6 h7 h8] by (simp add: f)
qed

text \<open>
  C9 as stated fails in three ways. A word whose text is empty: without a \<open>word\<close>
  field the cue's text is \<open>undefined\<close>, and with an empty \<open>word\<close> field the open cue
  is not flushed, so there is no cue. Words out of temporal order: the last end is
  within 5 seconds of the first start, an earlier end is not, and a cue is closed.
  Rounding: the words span 3002 ms to 8002 ms, exactly 5000 ms, but the doubles
  \<open>8.002\<close> and \<open>3.002\<close> differ by \<open>5.000000000000001\<close>, so the cue is closed.
\<close>

theorem single_cue_counterexample:
  "buildSegments \<lparr>t_words = Some [\<lparr>wtext = Some [], wword = None, wstart = Fin 0,
                                     wend = Fin 1000, wfrom = NaN, wto = NaN\<rparr>],
                   t_text = None, t_audio_duration = NaN\<rparr>
     = Inr [\<lparr>seg_start = Fin 0, seg_end = Fin 1, seg_text = str ''undefined''\<rparr>] \<and>
   buildSegments \<lparr>t_words = Some [\<lparr>wtext = Some [], wword = Some [], wstart = Fin 0,
                                     wend = Fin 1000, wfrom = NaN, wto = NaN\<rparr>],
                   t_text = None, t_audio_duration = NaN\<rparr>
     = Inr [] \<and>
   buildSegments \<lparr>t_words = Some [word ''a'' 0 1000, word ''b'' 1000 7000, word ''c'' 2000 3000],
                   t_text = None, t_audio_duration = NaN\<rparr>
     = Inr [\<lparr>seg_start = Fin 0, seg_end = Fin 7, seg_text = str ''a b''\<rparr>,
            \<lparr>seg_start = Fin 1, seg_end = Fin 3, seg_text = str ''b c''\<rparr>] \<and>
   buildSegments \<lparr>t_words = Some [word ''a'' 3002 8002], t_text = None, t_audio_duration = NaN\<rparr>
     = Inr [\<lparr>seg_start = lit (3002 / 1000), seg_end = lit (8002 / 1000), seg_text = str ''a''\<rparr>,
            \<lparr>seg_start = lit (3002 / 1000), seg_end = lit (8002 / 1000), seg_text = str ''a''\<rparr>]"
  by code_simp

section \<open>SubtitleSerializer: line breaks in the cue text\<close>

lemma fl_consts: "fl 0 = 0" "fl 1000 = 1000"
  by code_simp+

lemma mathRound_consts: "mathRound 0 = 0" "mathRound 1000 = 1000"
  by code_simp+

lemma padStart_simps:
  "padStart 2 [a] = [48, a]" "padStart 2 [a, b] = [a, b]" "padStart 2 [a, b, c] = [a, b, c]"
  "padStart 3 [a] = [48, 48, a]" "padStart 3 [a, b] = [48, a, b]" "padStart 3 [a, b, c] = [a, b, c]"
  by (simp_all add: padStart_def eval_nat_numeral)

lemma toVttTime_0: "toVttTime (Fin 0) = str ''00:00:00.000''"
  by (simp add: toVttTime_def orNum_def fl_consts floorDiv_exact jsRem_nonneg jsString_def
      padStart_simps)

lemma toVttTime_1: "toVttTime (Fin 1) = str ''00:00:01.000''"
  by (simp add: toVttTime_def orNum_def fl_consts floorDiv_exact jsRem_nonneg jsString_def
      padStart_simps)

lemma toVttTime'_0: "toVttTime' (Fin 0) = str ''00:00:00.000''"
  by (simp add: toVttTime'_def mathRound_consts orNum_def fl_consts floorDiv_exact jsRem_nonneg
      jsString_def padStart_simps)

lemma toVttTime'_1: "toVttTime' (Fin 1) = str ''00:00:01.000''"
  by (simp add: toVttTime'_def mathRound_consts orNum_def fl_consts floorDiv_exact jsRem_nonneg
      jsString_def padStart_simps)

lemma replaceCRLF_at:
  "13 \<notin> set a \<Longrightarrow> replaceCRLF (a @ 13 # 10 # b) = a @ 10 # replaceCRLF b"
proof (induction a)
  case Nil
  then show ?case by simp
next
  case (Cons c a)
  then show ?case by (cases a) auto
qed

lemma buildVttFromSegments_replaces_CRLF:
  "buildVttFromSegments [\<lparr>seg_start = Fin 0, seg_end = Fin 1,
                           seg_text = str ''a'' @ [13, 10] @ str ''b''\<rparr>]
   = str ''WEBVTT\<newline>\<newline>1\<newline>00:00:00.000 --> 00:00:01.000\<newline>a\<newline>b\<newline>''"
  by (simp add: buildVttFromSegments_def toVttTime'_0 toVttTime'_1 jsString_def enumerate_eq_zip)

text \<open>
  C8. \<open>buildVtt\<close>, the renderer of the transcription path, copies the cue text as it
  is: a CRLF in the text is a CRLF in the output, where the claim asks for a single line
  break. (\<open>buildVttFromSegments\<close>, the renderer of the translation path, replaces it, as
  the two lemmas above show.)
\<close>

theorem buildVtt_keeps_CRLF:
  "buildVtt [\<lparr>seg_start = Fin 0, seg_end = Fin 1, seg_text = str ''a'' @ [13, 10] @ str ''b''\<rparr>] []
   = str ''WEBVTT\<newline>\<newline>1\<newline>00:00:00.000 --> 00:00:01.000\<newline>a'' @ [13, 10] @ str ''b\<newline>\<newline>''"
  by (simp add: buildVtt_def toVttTime_0 toVttTime_1 jsString_def enumerate_eq_zip)

section \<open>TranslationEngine: language codes\<close>

lemmas normLang_eval =
  normLangBackend_def toJsString_def trim_def isSpace_def testAuto_def testCode_def
  asciiLower_def asciiUpper_def isLetter_def toLowerCase_def toUpperCase_def removeParens_def
  lookupLang_def LANG_MAP_BACKEND_def objectPrototypeNames_def

text \<open>
  C10. \<open>constructor\<close> is no key of the table, but \<open>LANG_MAP_BACKEND["constructor"]\<close> is
  the function \<open>Object\<close>, inherited from the prototype, and it is truthy: the normalizer
  returns it, which is none of the three forms, and normalizing that result gives
  \<open>auto\<close>, so the normalizer is not idempotent there.
\<close>

theorem normLangBackend_inherited_key:
  "normLangBackend (Str (str ''constructor'')) = Inherited (str ''constructor'') \<and>
   normLangBackend (normLangBackend (Str (str ''constructor''))) = Str (str ''auto'')"
  by (simp add: normLang_eval)

section \<open>TranslationEngine: the loop and the route\<close>

lemma translateLoop_acc:
  "translateLoop e srcLang tgtLang acc calls segs =
   (acc @ fst (translateLoop e srcLang tgtLang [] calls segs),
    snd (translateLoop e srcLang tgtLang [] calls segs))"
proof (induction segs arbitrary: acc calls)
  case Nil
  then show ?case by simp
next
  case (Cons seg segs)
  obtain t calls' where t: "translateWithMyMemory e calls (seg_text seg) srcLang tgtLang = (t, calls')"
    by (cases "translateWithMyMemory e calls (seg_text seg) srcLang tgtLang")
  let ?seg' = "seg\<lparr>seg_text := (if t = [] then seg_text seg else t)\<rparr>"
  have "translateLoop e srcLang tgtLang acc calls (seg # segs) =
        translateLoop e srcLang tgtLang (acc @ [?seg']) calls' segs"
    by (simp add: t Let_def)
  moreover have "translateLoop e srcLang tgtLang [] calls (seg # segs) =
        translateLoop e srcLang tgtLang [?seg'] calls' segs"
    by (simp add: t Let_def)
  ultimately show ?case
    using Cons.IH [of "acc @ [?seg']" calls'] Cons.IH [of "[?seg']" calls'] by simp
qed

lemma translateLoop_Cons:
  assumes "translateWithMyMemory e calls (seg_text seg) srcLang tgtLang = (t, calls')"
  shows "translateLoop e srcLang tgtLang [] calls (seg # segs) =
         (seg\<lparr>seg_text := (if t = [] then seg_text seg else t)\<rparr>
            # fst (translateLoop e srcLang tgtLang [] calls' segs),
          snd (translateLoop e srcLang tgtLang [] calls' segs))"
proof -
  have "translateLoop e srcLang tgtLang [] calls (seg # segs) =
        translateLoop e srcLang tgtLang [seg\<lparr>seg_text := (if t = [] then seg_text seg else t)\<rparr>]
          calls' segs"
    by (simp add: assms Let_def)
  then show ?thesis by (simp add: translateLoop_acc [of _ _ _ "[_]"])
qed

lemma translateLoop_timing:
  "length (fst (translateLoop e srcLang tgtLang [] calls segs)) = length segs \<and>
   map seg_start (fst (translateLoop e srcLang tgtLang [] calls segs)) = map seg_start segs \<and>
   map seg_end (fst (translateLoop e srcLang tgtLang [] calls segs)) = map seg_end segs"
proof (induction segs arbitrary: calls)
  case Nil
  then show ?case by simp
next
  case (Cons seg segs)
  obtain t calls' where t: "translateWithMyMemory e calls (seg_text seg) srcLang tgtLang = (t, calls')"
    by (cases "translateWithMyMemory e calls (seg_text seg) srcLang tgtLang")
  show ?case
    unfolding translateLoop_Cons [OF t] using Cons.IH [of calls'] by simp
qed

lemma mirrorsLoop_fail:
  "mirrorsFail e calls text tgtLang ms \<Longrightarrow> fst (mirrorsLoop e calls text tgtLang ms) = text"
proof (induction ms arbitrary: calls)
  case Nil
  then show ?case by simp
next
  case (Cons m ms)
  show ?case
  proof (cases tgtLang)
    case (Inherited k)
    have "mirrorsFail e calls text (Inherited k) ms" by (cases ms) simp_all
    then show ?thesis using Cons.IH Inherited by simp
  next
    case (Str t)
    then show ?thesis
      using Cons.IH [of "calls @ [MirrorPost m text (toLowerCase t)]"] Cons.prems
      by (auto simp: Let_def split: mirror_response.splits)
  qed
qed

lemma translateWithMyMemory_fail:
  assumes "providersFail e srcLang tgtLang calls text"
  shows "fst (translateWithMyMemory e calls text srcLang tgtLang) = text"
proof -
  let ?lp = "toJsString srcLang @ str ''|'' @ toJsString tgtLang"
  let ?cs = "calls @ [MyMemoryGet text ?lp]"
  have m: "fst (mirrorsLoop e ?cs text tgtLang (MIRRORS e)) = text"
    using assms unfolding providersFail_def by (intro mirrorsLoop_fail) simp
  have p: "case myMemory e calls text ?lp of MMError \<Rightarrow> True | MMData t \<Rightarrow> \<not> truthy t"
    using assms unfolding providersFail_def by simp
  have v: "fst (case translateTextWithFallback e ?cs text tgtLang of
              (fallback, calls'') \<Rightarrow>
                if fallback \<noteq> [] \<and> fallback \<noteq> text then (fallback, calls'') else (text, calls''))
           = text"
    using m
    by (cases "mirrorsLoop e ?cs text tgtLang (MIRRORS e)")
      (auto simp: translateTextWithFallback_def)
  show ?thesis
    using p v
    by (simp add: translateWithMyMemory_def Let_def truthy_def
        split: mm_response.splits option.splits)
qed

lemma primaryRequests_append:
  "primaryRequests (cs @ ds) = primaryRequests cs @ primaryRequests ds"
  by (induction cs rule: primaryRequests.induct) simp_all

lemma mirrorsLoop_requests:
  "primaryRequests (snd (mirrorsLoop e calls text tgtLang ms)) = primaryRequests calls"
proof (induction ms arbitrary: calls)
  case Nil
  then show ?case by simp
next
  case (Cons m ms)
  show ?case
  proof (cases tgtLang)
    case (Inherited k)
    then show ?thesis using Cons.IH by simp
  next
    case (Str t)
    then show ?thesis
      using Cons.IH [of "calls @ [MirrorPost m text (toLowerCase t)]"]
      by (simp add: Let_def primaryRequests_append split: mirror_response.splits)
  qed
qed

lemma translateWithMyMemory_requests:
  "primaryRequests (snd (translateWithMyMemory e calls text srcLang tgtLang))
   = primaryRequests calls @ [text]"
proof -
  let ?lp = "toJsString srcLang @ str ''|'' @ toJsString tgtLang"
  have "primaryRequests (snd (mirrorsLoop e (calls @ [MyMemoryGet text ?lp]) text tgtLang (MIRRORS e)))
        = primaryRequests calls @ [text]"
    by (simp add: mirrorsLoop_requests primaryRequests_append)
  then show ?thesis
    by (cases "mirrorsLoop e (calls @ [MyMemoryGet text ?lp]) text tgtLang (MIRRORS e)")
      (auto simp: translateWithMyMemory_def Let_def translateTextWithFallback_def
        primaryRequests_append split: mm_response.splits option.splits)
qed

lemma translateLoop_requests:
  "primaryRequests (snd (translateLoop e srcLang tgtLang [] calls segs))
   = primaryRequests calls @ map seg_text segs"
proof (induction segs arbitrary: calls)
  case Nil
  then show ?case by simp
next
  case (Cons seg segs)
  obtain t calls' where t: "translateWithMyMemory e calls (seg_text seg) srcLang tgtLang = (t, calls')"
    by (cases "translateWithMyMemory e calls (seg_text seg) srcLang tgtLang")
  have "primaryRequests calls' = primaryRequests calls @ [seg_text seg]"
    using translateWithMyMemory_requests [of e calls "seg_text seg" srcLang tgtLang] t by simp
  then show ?case
    unfolding translateLoop_Cons [OF t] using Cons.IH [of calls'] by simp
qed

lemma translateLoop_fail_nth:
  assumes "i < length segs"
    and "providersFail e srcLang tgtLang
           (snd (translateLoop e srcLang tgtLang [] calls (take i segs))) (seg_text (segs ! i))"
  shows "fst (translateLoop e srcLang tgtLang [] calls segs) ! i = segs ! i"
  using assms
proof (induction segs arbitrary: calls i)
  case Nil
  then show ?case by simp
next
  case (Cons seg segs)
  obtain t calls' where t: "translateWithMyMemory e calls (seg_text seg) srcLang tgtLang = (t, calls')"
    by (cases "translateWithMyMemory e calls (seg_text seg) srcLang tgtLang")
  show ?case
  proof (cases i)
    case 0
    then have "providersFail e srcLang tgtLang calls (seg_text seg)" using Cons.prems(2) by simp
    then have "t = seg_text seg"
      using translateWithMyMemory_fail [of e srcLang tgtLang calls "seg_text seg"] t by simp
    then show ?thesis unfolding translateLoop_Cons [OF t] using 0 by simp
  next
    case (Suc j)
    from Cons.prems(2) have "providersFail e srcLang tgtLang
        (snd (translateLoop e srcLang tgtLang [] calls (seg # take j segs))) (seg_text (segs ! j))"
      by (simp only: Suc take_Suc_Cons nth_Cons_Suc)
    then have "providersFail e srcLang tgtLang
        (snd (translateLoop e srcLang tgtLang [] calls' (take j segs))) (seg_text (segs ! j))"
      by (simp only: translateLoop_Cons [OF t] snd_conv)
    moreover have "j < length segs" using Cons.prems(1) Suc by simp
    ultimately have "fst (translateLoop e srcLang tgtLang [] calls' segs) ! j = segs ! j"
      by (intro Cons.IH)
    then show ?thesis
      unfolding translateLoop_Cons [OF t] using Suc by simp
  qed
qed

text \<open>
  C5. When the primary provider and every mirror fail or answer nothing at the requests
  the loop makes for a segment, after the requests it has made for the segments before
  it, that segment is in the output as it was in the input, the output has every
  segment of the batch, and every segment was sent to the primary provider: the loop
  goes on after the failure.
\<close>

theorem failed_segment_keeps_text:
  assumes "i < length segs"
    and "providersFail e srcLang tgtLang
           (snd (translateLoop e srcLang tgtLang [] calls (take i segs))) (seg_text (segs ! i))"
  shows "length (fst (translateLoop e srcLang tgtLang [] calls segs)) = length segs \<and>
         fst (translateLoop e srcLang tgtLang [] calls segs) ! i = segs ! i \<and>
         primaryRequests (snd (translateLoop e srcLang tgtLang [] calls segs))
           = primaryRequests calls @ map seg_text segs"
  using translateLoop_timing [of e srcLang tgtLang calls segs]
    translateLoop_fail_nth [OF assms] translateLoop_requests [of e srcLang tgtLang calls segs]
  by simp

lemmas route_eval =
  translateSubtitles_def sourceLang_def toTranslateSegments_def inferSource_def countVotes_def
  winners_def detectScriptFromTextSample_def hasUnit_def writeVtt_def truthy_def toStr_def
  translateWithMyMemory_def translateTextWithFallback_def exampleEnv_def cue_def Let_def

theorem failed_segment_keeps_text_witness:
  "providersFail flakyEnv (Str (str ''en'')) (Str (str ''xx'')) [] (str ''x'') \<and>
   fst (translateLoop flakyEnv (Str (str ''en'')) (Str (str ''xx'')) [] []
          [cue (str ''x''), cue (str ''y'')])
     = [cue (str ''x''), cue (str ''hello'')] \<and>
   primaryRequests (snd (translateLoop flakyEnv (Str (str ''en'')) (Str (str ''xx'')) [] []
          [cue (str ''x''), cue (str ''y'')]))
     = [str ''x'', str ''y'']"
proof -
  let ?segs = "[cue (str ''x''), cue (str ''y'')]"
  let ?src = "Str (str ''en'')"
  let ?tgt = "Str (str ''xx'')"
  have h1: "0 < length ?segs" by simp
  have h2: "providersFail flakyEnv ?src ?tgt
              (snd (translateLoop flakyEnv ?src ?tgt [] [] (take 0 ?segs))) (seg_text (?segs ! 0))"
    by (simp add: providersFail_def flakyEnv_def cue_def toJsString_def toLowerCase_def
        asciiLower_def)
  have ev: "fst (translateLoop flakyEnv ?src ?tgt [] [] ?segs)
            = [cue (str ''x''), cue (str ''hello'')]"
    by (simp add: translateWithMyMemory_def translateTextWithFallback_def flakyEnv_def cue_def
        Let_def truthy_def toStr_def toJsString_def toLowerCase_def asciiLower_def)
  show ?thesis
    using failed_segment_keeps_text [OF h1 h2] h2 ev by (simp add: cue_def)
qed

lemma toTranslateSegments_given:
  "req_segments req = Some segs \<Longrightarrow> segs \<noteq> [] \<Longrightarrow> toTranslateSegments e req = segs"
  by (simp add: toTranslateSegments_def)

text \<open>
  C3 (amended). For every non-empty segment list: when the source language the route
  has resolved (the normalized hint, replaced by the language of the script vote when
  the hint is \<open>auto\<close> or \<open>en\<close> and a script is found) equals the normalized target
  without regard to case and is not \<open>auto\<close>, and the subtitle file can be written, the
  route answers with success and the input segments unchanged, and no translation
  provider is called.
\<close>

theorem same_language_skips_translation:
  assumes "truthy (req_targetLang req)" and "req_segments req = Some segs" and "segs \<noteq> []"
    and "toLowerCase (toJsString (sourceLang e req)) \<noteq> str ''auto''"
    and "toLowerCase (toJsString (sourceLang e req))
         = toLowerCase (toJsString (normLangBackend (Str (toStr (req_targetLang req)))))"
    and "writeFile e (buildVttFromSegments segs)"
  shows "translateSubtitles e req =
         \<lparr>out_response = Success segs, out_calls = [],
          out_files = [buildVttFromSegments segs]\<rparr>"
  using assms
  by (simp add: translateSubtitles_def writeVtt_def toTranslateSegments_given Let_def)

theorem same_language_skips_translation_witness:
  "translateSubtitles exampleEnv
     \<lparr>req_segments = Some [cue (str ''hello'')], req_targetLang = Some (str ''EN''),
      req_detectedLanguage = Some (str ''english''), req_transcriptId = None\<rparr>
   = \<lparr>out_response = Success [cue (str ''hello'')], out_calls = [],
      out_files = [buildVttFromSegments [cue (str ''hello'')]]\<rparr>"
proof -
  let ?req = "\<lparr>req_segments = Some [cue (str ''hello'')], req_targetLang = Some (str ''EN''),
      req_detectedLanguage = Some (str ''english''), req_transcriptId = None\<rparr>"
  have h1: "truthy (req_targetLang ?req)" by (simp add: truthy_def)
  have h2: "req_segments ?req = Some [cue (str ''hello'')]" by simp
  have h3: "[cue (str ''hello'')] \<noteq> []" by simp
  have src: "sourceLang exampleEnv ?req = Str (str ''en'')"
    by (simp add: route_eval normLang_eval)
  have tgt: "normLangBackend (Str (toStr (req_targetLang ?req))) = Str (str ''en'')"
    by (simp add: toStr_def normLang_eval)
  have h4: "toLowerCase (toJsString (sourceLang exampleEnv ?req)) \<noteq> str ''auto''"
    unfolding src by (simp add: toJsString_def toLowerCase_def asciiLower_def)
  have h5: "toLowerCase (toJsString (sourceLang exampleEnv ?req))
         = toLowerCase (toJsString (normLangBackend (Str (toStr (req_targetLang ?req)))))"
    unfolding src tgt by simp
  have h6: "writeFile exampleEnv (buildVttFromSegments [cue (str ''hello'')])"
    by (simp add: exampleEnv_def)
  show ?thesis
    by (rule same_language_skips_translation [OF h1 h2 h3 h4 h5 h6])
qed

text \<open>
  C3 as stated fails: with source and target both normalized to \<open>en\<close>, an empty
  segment list is answered by status 400, and a segment in Devanagari script makes the
  route take \<open>hi\<close> as the source, call the provider and return the translated text.
\<close>

theorem same_language_counterexample:
  "normLangBackend (Str (str ''en'')) = Str (str ''en'') \<and>
   out_response (translateSubtitles exampleEnv
     \<lparr>req_segments = Some [], req_targetLang = Some (str ''en''),
      req_detectedLanguage = Some (str ''en''), req_transcriptId = None\<rparr>)
     = BadRequest (str ''No segments to translate (provide segments or transcriptId)'') \<and>
   out_response (translateSubtitles exampleEnv
     \<lparr>req_segments = Some [cue [2344, 2350]], req_targetLang = Some (str ''en''),
      req_detectedLanguage = Some (str ''en''), req_transcriptId = None\<rparr>)
     = Success [cue (str ''hello'')] \<and>
   out_calls (translateSubtitles exampleEnv
     \<lparr>req_segments = Some [cue [2344, 2350]], req_targetLang = Some (str ''en''),
      req_detectedLanguage = Some (str ''en''), req_transcriptId = None\<rparr>)
     = [MyMemoryGet [2344, 2350] (str ''hi|en'')]"
proof -
  have n: "normLangBackend (Str (str ''en'')) = Str (str ''en'')"
    by (simp add: normLang_eval)
  have n': "normLangBackend (Str [101, 110]) = Str [101, 110]" using n by simp
  have a: "translateSubtitles exampleEnv
     \<lparr>req_segments = Some [], req_targetLang = Some (str ''en''),
      req_detectedLanguage = Some (str ''en''), req_transcriptId = None\<rparr>
     = \<lparr>out_response = BadRequest (str ''No segments to translate (provide segments or transcriptId)''),
        out_calls = [], out_files = []\<rparr>"
    by (simp add: translateSubtitles_def toTranslateSegments_def truthy_def)
  have src: "sourceLang exampleEnv
     \<lparr>req_segments = Some [cue [2344, 2350]], req_targetLang = Some (str ''en''),
      req_detectedLanguage = Some (str ''en''), req_transcriptId = None\<rparr> = Str (str ''hi'')"
    by (simp add: sourceLang_def toTranslateSegments_def inferSource_def countVotes_def
        winners_def detectScriptFromTextSample_def hasUnit_def truthy_def toStr_def cue_def n')
  have b: "translateSubtitles exampleEnv
     \<lparr>req_segments = Some [cue [2344, 2350]], req_targetLang = Some (str ''en''),
      req_detectedLanguage = Some (str ''en''), req_transcriptId = None\<rparr>
     = \<lparr>out_response = Success [cue (str ''hello'')],
        out_calls = [MyMemoryGet [2344, 2350] (str ''hi|en'')],
        out_files = [buildVttFromSegments [cue (str ''hello'')]]\<rparr>"
    unfolding translateSubtitles_def src
    by (simp add: n' toTranslateSegments_def truthy_def toStr_def
        toJsString_def toLowerCase_def asciiLower_def writeVtt_def translateWithMyMemory_def
        exampleEnv_def cue_def Let_def)
  show ?thesis by (simp only: n a b outcome.simps simp_thms)
qed

lemma translateSubtitles_preserves_timing:
  assumes "out_response (translateSubtitles e req) = Success out"
  shows "length out = length (toTranslateSegments e req) \<and>
         map seg_start out = map seg_start (toTranslateSegments e req) \<and>
         map seg_end out = map seg_end (toTranslateSegments e req)"
proof -
  let ?segs = "toTranslateSegments e req"
  let ?src = "sourceLang e req"
  let ?tgt = "normLangBackend (Str (toStr (req_targetLang req)))"
  have w: "out_response (writeVtt e xs cs) = Success out \<Longrightarrow> out = xs" for xs cs
    by (simp add: writeVtt_def Let_def split: if_splits)
  consider "out = ?segs" | "out = fst (translateLoop e ?src ?tgt [] [] ?segs)"
    using assms w
    by (auto simp: translateSubtitles_def Let_def split: if_splits prod.splits)
  then show ?thesis
  proof cases
    case 1
    then show ?thesis by simp
  next
    case 2
    then show ?thesis using translateLoop_timing [of e ?src ?tgt "[]" ?segs] by simp
  qed
qed

text \<open>
  C4. For every segment list the translation loop returns a list of the same length
  whose segments have, in order, the start and end times of the input.
  (\<open>translateSubtitles_preserves_timing\<close> is the same for the route's answer.)
\<close>

theorem translation_preserves_timing:
  "length (fst (translateLoop e srcLang tgtLang [] calls segs)) = length segs \<and>
   map seg_start (fst (translateLoop e srcLang tgtLang [] calls segs)) = map seg_start segs \<and>
   map seg_end (fst (translateLoop e srcLang tgtLang [] calls segs)) = map seg_end segs"
  by (rule translateLoop_timing)

section \<open>MediaAcquirer: the fallback chain\<close>

lemma uploadFromUrl_never_streams: "\<not> list_ex isStreamGet (snd (uploadFromUrl st url))"
  by (simp add: uploadFromUrl_def isStreamGet_def split: option.splits)

lemma streaming_retries:
  assumes "remoteUrl \<noteq> []" and "\<forall>n. ext_streamUpload st remoteUrl n = None"
  shows "uploadRemoteUrlToCloudinaryStream st remoteUrl =
         (Failed, [StreamGet remoteUrl 1, Sleep (retryDelay st 1),
                   StreamGet remoteUrl 2, Sleep (retryDelay st 2),
                   StreamGet remoteUrl 3])"
proof -
  have n: "(1::nat) + 1 = 2" "(2::nat) + 1 = 3" "(3::nat) + 1 = 4" by simp_all
  have 4: "streamLoop st remoteUrl 4 evs = (Failed, evs)" for evs
    by (subst streamLoop.simps) (simp add: ATTEMPTS_def)
  have 3: "streamLoop st remoteUrl 3 evs = (Failed, evs @ [StreamGet remoteUrl 3])" for evs
    by (subst streamLoop.simps) (simp only: n 4 ATTEMPTS_def assms(2), simp)
  have 2: "streamLoop st remoteUrl 2 evs =
           (Failed, evs @ [StreamGet remoteUrl 2, Sleep (retryDelay st 2), StreamGet remoteUrl 3])"
    for evs
    by (subst streamLoop.simps) (simp only: n 3 ATTEMPTS_def assms(2), simp)
  have 1: "streamLoop st remoteUrl 1 evs =
           (Failed, evs @ [StreamGet remoteUrl 1, Sleep (retryDelay st 1),
                           StreamGet remoteUrl 2, Sleep (retryDelay st 2), StreamGet remoteUrl 3])"
    for evs
    by (subst streamLoop.simps) (simp only: n 2 ATTEMPTS_def assms(2), simp)
  show ?thesis
    using assms(1) by (simp only: uploadRemoteUrlToCloudinaryStream_def 1 if_False append_Nil)
qed

lemma fl_delay_consts: "fl 500 = 500" "fl 2000 = 2000" "fl 2500 = 2500" "fl 4000 = 4000" "fl 4500 = 4500"
  by code_simp+

lemma retryDelay_bounds:
  assumes "0 \<le> ext_random st attempt" and "ext_random st attempt < 1"
    and "attempt = 1 \<or> attempt = 2"
  shows "2 ^ attempt * 1000 \<le> retryDelay st attempt \<and>
         retryDelay st attempt \<le> 2 ^ attempt * 1000 + 500"
proof -
  let ?y = "fl (ext_random st attempt * 500)"
  have "fl 0 \<le> ?y" using assms(1) by (intro fl_mono) simp
  then have y0: "0 \<le> ?y" by (simp add: fl_zero)
  have "?y \<le> fl 500" using assms(2) by (intro fl_mono) simp
  then have y1: "?y \<le> 500" by (simp add: fl_delay_consts)
  have b: "of_int k \<le> fl (of_int k + ?y) \<and> fl (of_int k + ?y) \<le> of_int k + 500"
    if "fl (of_int k) = of_int k" "fl (of_int k + 500) = of_int k + 500" for k :: int
  proof -
    have "fl (of_int k) \<le> fl (of_int k + ?y)" using y0 by (intro fl_mono) simp
    moreover have "fl (of_int k + ?y) \<le> fl (of_int k + 500)" using y1 by (intro fl_mono) simp
    ultimately show ?thesis using that by simp
  qed
  have r: "k \<le> mathRound z \<and> mathRound z \<le> k + 500"
    if "of_int k \<le> z" "z \<le> of_int k + 500" for k :: int and z :: rat
  proof -
    have "of_int k \<le> z + 1 / 2" using that(1) by simp
    then have "k \<le> \<lfloor>z + 1 / 2\<rfloor>" by (simp add: le_floor_iff)
    moreover have "z + 1 / 2 < of_int (k + 500) + 1" using that(2) by simp
    then have "\<lfloor>z + 1 / 2\<rfloor> < k + 500 + 1" by (simp add: floor_less_iff)
    ultimately show ?thesis by (simp add: mathRound_def)
  qed
  from assms(3) show ?thesis
  proof
    assume a: "attempt = 1"
    have "of_int 2000 \<le> fl (of_int 2000 + ?y) \<and> fl (of_int 2000 + ?y) \<le> of_int 2000 + 500"
      by (rule b) (simp_all add: fl_delay_consts)
    then have "2000 \<le> mathRound (fl (of_int 2000 + ?y)) \<and> mathRound (fl (of_int 2000 + ?y)) \<le> 2000 + 500"
      by (intro r) simp_all
    then show ?thesis by (simp add: retryDelay_def a)
  next
    assume a: "attempt = 2"
    have "of_int 4000 \<le> fl (of_int 4000 + ?y) \<and> fl (of_int 4000 + ?y) \<le> of_int 4000 + 500"
      by (rule b) (simp_all add: fl_delay_consts)
    then have "4000 \<le> mathRound (fl (of_int 4000 + ?y)) \<and> mathRound (fl (of_int 4000 + ?y)) \<le> 4000 + 500"
      by (intro r) simp_all
    then show ?thesis by (simp add: retryDelay_def a)
  qed
qed


end
